theory Spec2Isabelle
  imports Complex_Main
begin

section \<open>Python text primitives\<close>

text \<open>
  Python strings are sequences of Unicode code points. They are modelled as
  \<^typ>\<open>string\<close>, each \<^typ>\<open>char\<close> standing for the code point with the
  same number (0..255, the Latin-1 range); code points above 255 are outside
  the model. The character classes below are the ones CPython uses for
  \<^verbatim>\<open>str.isspace\<close>, \<^verbatim>\<open>str.isdigit\<close> and for \<^verbatim>\<open>\s\<close>,
  \<^verbatim>\<open>\d\<close>, \<^verbatim>\<open>\w\<close> in a \<^verbatim>\<open>str\<close> pattern, cut down to that range.
\<close>

definition cp :: "char \<Rightarrow> nat" where
  "cp c = of_char c"

definition is_ascii_digit :: "char \<Rightarrow> bool" where
  "is_ascii_digit c = (48 \<le> cp c \<and> cp c \<le> 57)"

text \<open>\<^verbatim>\<open>str.isspace\<close> and \<^verbatim>\<open>\s\<close>: tab to carriage return, the four
  separators 0x1C..0x1F, space, NEL (0x85) and the no-break space (0xA0).\<close>

definition py_isspace :: "char \<Rightarrow> bool" where
  "py_isspace c = ((9 \<le> cp c \<and> cp c \<le> 13) \<or> (28 \<le> cp c \<and> cp c \<le> 32)
                    \<or> cp c = 133 \<or> cp c = 160)"

text \<open>\<^verbatim>\<open>str.isdigit\<close> on one character: the ASCII digits and the superscripts
  two, three and one (0xB2, 0xB3, 0xB9), which are digits but not decimals.\<close>

definition py_isdigit_char :: "char \<Rightarrow> bool" where
  "py_isdigit_char c = (is_ascii_digit c \<or> cp c = 178 \<or> cp c = 179 \<or> cp c = 185)"

text \<open>\<^verbatim>\<open>\w\<close>: alphanumeric (letters, digits, numeric characters) or underscore.\<close>

definition py_isword :: "char \<Rightarrow> bool" where
  "py_isword c = (is_ascii_digit c
                  \<or> (65 \<le> cp c \<and> cp c \<le> 90) \<or> cp c = 95 \<or> (97 \<le> cp c \<and> cp c \<le> 122)
                  \<or> cp c = 170 \<or> cp c = 178 \<or> cp c = 179 \<or> cp c = 181
                  \<or> cp c = 185 \<or> cp c = 186 \<or> (188 \<le> cp c \<and> cp c \<le> 190)
                  \<or> (192 \<le> cp c \<and> cp c \<le> 214) \<or> (216 \<le> cp c \<and> cp c \<le> 246)
                  \<or> (248 \<le> cp c \<and> cp c \<le> 255))"

text \<open>\<^verbatim>\<open>.\<close> without DOTALL: anything but a line feed.\<close>

definition py_isdot :: "char \<Rightarrow> bool" where
  "py_isdot c = (c \<noteq> CHR 0x0A)"

text \<open>\<^verbatim>\<open>s.isdigit()\<close>: non-empty and every character a digit.\<close>

definition py_isdigit :: "string \<Rightarrow> bool" where
  "py_isdigit s = (s \<noteq> [] \<and> list_all py_isdigit_char s)"

text \<open>\<^verbatim>\<open>s.strip()\<close>, \<^verbatim>\<open>s.split()\<close> (runs of whitespace separate, no empty
  words), \<^verbatim>\<open>sep.join(xs)\<close> and \<^verbatim>\<open>s.split(c, 1)\<close> for a one-character
  separator.\<close>

definition py_strip :: "string \<Rightarrow> string" where
  "py_strip s = rev (dropWhile py_isspace (rev (dropWhile py_isspace s)))"

fun split_acc :: "string \<Rightarrow> string \<Rightarrow> string list" where
  "split_acc cur [] = (if cur = [] then [] else [cur])"
| "split_acc cur (c # cs) =
     (if py_isspace c then (if cur = [] then split_acc [] cs else cur # split_acc [] cs)
      else split_acc (cur @ [c]) cs)"

definition py_split :: "string \<Rightarrow> string list" where
  "py_split s = split_acc [] s"

fun py_join :: "string \<Rightarrow> string list \<Rightarrow> string" where
  "py_join sep [] = []"
| "py_join sep [x] = x"
| "py_join sep (x # y # ys) = x @ sep @ py_join sep (y # ys)"

definition py_split1 :: "char \<Rightarrow> string \<Rightarrow> string list" where
  "py_split1 c s = (if c \<in> set s then [takeWhile (\<lambda>d. d \<noteq> c) s, tl (dropWhile (\<lambda>d. d \<noteq> c) s)]
                    else [s])"

section \<open>Errors\<close>

text \<open>
  Every failure of the source is a Python \<^verbatim>\<open>ValueError\<close>; the constructors
  tell the places that raise apart. \<open>DatumNotFound\<close> and \<open>TitelNotFound\<close> are the two
  raises of \<^verbatim>\<open>parse_header\<close> (the specification's HeaderParseError with "date
  missing" and "title missing"), \<open>NoStundeNumbers\<close> is the raise of
  \<^verbatim>\<open>parse_rows_from_page\<close> (NoRowsFoundError). \<open>StrptimeError\<close> is raised by
  \<^verbatim>\<open>datetime.strptime\<close>, \<open>IntLiteralError\<close> by \<^verbatim>\<open>int\<close>, and
  \<open>UnpackError\<close> by a tuple assignment whose right side has the wrong length.
\<close>

datatype error =
    DatumNotFound
  | TitelNotFound
  | NoStundeNumbers
  | StrptimeError
  | IntLiteralError
  | UnpackError

section \<open>A backtracking matcher for the patterns of the source\<close>

text \<open>
  The three patterns of the source and the pattern \<^verbatim>\<open>strptime\<close> builds from
  its format use only: literal text, one character of a class, a class repeated
  (greedy or lazy, or a fixed number of times), sequence, alternation, an
  optional part, capture groups, \<^verbatim>\<open>$\<close> under MULTILINE and \<^verbatim>\<open>\b\<close>.
  A position is the text before it and the text after it.
\<close>

datatype rx =
    Lit string
  | Chr "char \<Rightarrow> bool"
  | StarG "char \<Rightarrow> bool"
  | PlusG "char \<Rightarrow> bool"
  | PlusL "char \<Rightarrow> bool"
  | Rep nat "char \<Rightarrow> bool"
  | Seq rx rx
  | Alt rx rx
  | Opt rx
  | Grp nat rx
  | Eol
  | WordB

type_synonym pos = "string \<times> string"
type_synonym groups = "nat \<rightharpoonup> string"

definition at_word_boundary :: "pos \<Rightarrow> bool" where
  "at_word_boundary p =
     ((fst p \<noteq> [] \<and> py_isword (last (fst p))) \<noteq> (snd p \<noteq> [] \<and> py_isword (hd (snd p))))"

text \<open>
  \<open>ms r (p, g)\<close> lists, in the order a backtracking matcher tries them, every way
  \<open>r\<close> can match starting at position \<open>p\<close> with the groups \<open>g\<close> set so far: the
  position after the match and the groups then. A greedy repetition offers the
  longest run first, a lazy one the shortest; an optional part is tried before
  it is skipped; an alternation tries its left branch first. The match Python
  reports is the head of the list.
\<close>

fun ms :: "rx \<Rightarrow> pos \<times> groups \<Rightarrow> (pos \<times> groups) list" where
  "ms (Lit l) ((pre, post), g) =
     (if take (length l) post = l then [((pre @ l, drop (length l) post), g)] else [])"
| "ms (Chr P) ((pre, post), g) =
     (case post of [] \<Rightarrow> [] | c # cs \<Rightarrow> if P c then [((pre @ [c], cs), g)] else [])"
| "ms (StarG P) ((pre, post), g) =
     map (\<lambda>k. ((pre @ take k post, drop k post), g)) (rev [0..<Suc (length (takeWhile P post))])"
| "ms (PlusG P) ((pre, post), g) =
     map (\<lambda>k. ((pre @ take k post, drop k post), g)) (rev [1..<Suc (length (takeWhile P post))])"
| "ms (PlusL P) ((pre, post), g) =
     map (\<lambda>k. ((pre @ take k post, drop k post), g)) [1..<Suc (length (takeWhile P post))]"
| "ms (Rep n P) ((pre, post), g) =
     (if n \<le> length (takeWhile P post) then [((pre @ take n post, drop n post), g)] else [])"
| "ms (Seq a b) s = concat (map (ms b) (ms a s))"
| "ms (Alt a b) s = ms a s @ ms b s"
| "ms (Opt a) s = ms a s @ [s]"
| "ms (Grp n a) ((pre, post), g) =
     map (\<lambda>(p', g'). (p', g'(n \<mapsto> drop (length pre) (fst p')))) (ms a ((pre, post), g))"
| "ms Eol (p, g) = (if snd p = [] \<or> hd (snd p) = CHR 0x0A then [(p, g)] else [])"
| "ms WordB (p, g) = (if at_word_boundary p then [(p, g)] else [])"

text \<open>\<^verbatim>\<open>pattern.match\<close> at a position: the first way, if there is one.\<close>

definition match_at :: "rx \<Rightarrow> pos \<Rightarrow> (pos \<times> groups) option" where
  "match_at r p = (case ms r (p, Map.empty) of [] \<Rightarrow> None | x # _ \<Rightarrow> Some x)"

text \<open>\<^verbatim>\<open>pattern.search\<close>: the leftmost position with a match, scanning from
  \<open>(pre, post)\<close> to the end of the text (the end itself included).\<close>

fun search_from :: "rx \<Rightarrow> string \<Rightarrow> string \<Rightarrow> (pos \<times> groups) option" where
  "search_from r pre [] = match_at r (pre, [])"
| "search_from r pre (c # cs) =
     (case match_at r (pre, c # cs) of
        Some x \<Rightarrow> Some x
      | None \<Rightarrow> search_from r (pre @ [c]) cs)"

definition re_search :: "rx \<Rightarrow> string \<Rightarrow> groups option" where
  "re_search r s = map_option snd (search_from r [] s)"

text \<open>
  \<^verbatim>\<open>re.sub(pattern, "", text)\<close>: scan from the left; where the pattern matches,
  drop the matched text and go on behind it; elsewhere keep the character. A
  match that consumes nothing removes nothing, and the scan keeps the character
  and moves on.
\<close>

function sub_from :: "rx \<Rightarrow> string \<Rightarrow> string \<Rightarrow> string" where
  "sub_from r pre [] = []"
| "sub_from r pre (c # cs) =
     (case match_at r (pre, c # cs) of
        Some ((pre', post'), g) \<Rightarrow>
          if length post' < length (c # cs) then sub_from r pre' post'
          else c # sub_from r (pre @ [c]) cs
      | None \<Rightarrow> c # sub_from r (pre @ [c]) cs)"
  by pat_completeness auto
termination
  by (relation "measure (\<lambda>(r, pre, post). length post)") auto

definition re_sub_empty :: "rx \<Rightarrow> string \<Rightarrow> string" where
  "re_sub_empty r s = sub_from r [] s"

section \<open>Dates\<close>

text \<open>
  \<^verbatim>\<open>int(s)\<close> as the source calls it, on a string for which \<^verbatim>\<open>s.isdigit()\<close>
  holds. Of the digits of the model only the ASCII ones are decimal digits
  (beyond its range there are others, the fullwidth digits for one, which
  \<^verbatim>\<open>isdigit\<close> and \<^verbatim>\<open>int\<close> accept as well), so \<^verbatim>\<open>int\<close> raises a
  \<^verbatim>\<open>ValueError\<close> when a superscript digit occurs. It also
  raises one when the literal has more than 4300 digits, leading zeros
  counted: that is the bound CPython puts on the conversion (the default of
  \<^verbatim>\<open>sys.set_int_max_str_digits\<close>). Otherwise the result is the decimal value.
\<close>

definition digit_val :: "char \<Rightarrow> int" where
  "digit_val c = int (cp c) - 48"

definition digits_value :: "string \<Rightarrow> int" where
  "digits_value s = foldl (\<lambda>acc c. acc * 10 + digit_val c) 0 s"

definition int_max_str_digits :: nat where
  "int_max_str_digits = 4300"

definition py_int :: "string \<Rightarrow> error + int" where
  "py_int s = (if s \<noteq> [] \<and> list_all is_ascii_digit s \<and> length s \<le> int_max_str_digits
               then Inr (digits_value s)
               else Inl IntLiteralError)"

text \<open>
  \<^verbatim>\<open>datetime.strptime(s, "%d.%m.%Y")\<close> compiles the format into the pattern
  \<^verbatim>\<open>(?P<d>3[0-1]|[1-2]\d|0[1-9]|[1-9]| [1-9])\.(?P<m>1[0-2]|0[1-9]|[1-9])\.(?P<Y>\d\d\d\d)\<close>,
  matches it at the start of \<open>s\<close>, fails unless the match ends where \<open>s\<close> ends,
  and builds a date from the three numbers, which fails for year 0 and for a
  day the month does not have. Groups 1, 2 and 3 stand for d, m and Y.
\<close>

definition in_range :: "nat \<Rightarrow> nat \<Rightarrow> char \<Rightarrow> bool" where
  "in_range lo hi c = (lo \<le> cp c \<and> cp c \<le> hi)"

definition STRPTIME_RE :: rx where
  "STRPTIME_RE =
     Seq (Grp 1 (Alt (Seq (Lit ''3'') (Chr (in_range 48 49)))
                (Alt (Seq (Chr (in_range 49 50)) (Chr is_ascii_digit))
                (Alt (Seq (Lit ''0'') (Chr (in_range 49 57)))
                (Alt (Chr (in_range 49 57))
                     (Seq (Lit '' '') (Chr (in_range 49 57))))))))
    (Seq (Lit ''.'')
    (Seq (Grp 2 (Alt (Seq (Lit ''1'') (Chr (in_range 48 50)))
                (Alt (Seq (Lit ''0'') (Chr (in_range 49 57)))
                     (Chr (in_range 49 57)))))
    (Seq (Lit ''.'')
         (Grp 3 (Rep 4 is_ascii_digit)))))"

definition is_leap :: "int \<Rightarrow> bool" where
  "is_leap y = (y mod 4 = 0 \<and> (y mod 100 \<noteq> 0 \<or> y mod 400 = 0))"

definition days_in_month :: "int \<Rightarrow> int \<Rightarrow> int" where
  "days_in_month y m =
     (if m = 2 then (if is_leap y then 29 else 28)
      else if m = 4 \<or> m = 6 \<or> m = 9 \<or> m = 11 then 30 else 31)"

definition group_int :: "groups \<Rightarrow> nat \<Rightarrow> int" where
  "group_int g n = (case g n of None \<Rightarrow> 0
                    | Some s \<Rightarrow> digits_value (filter is_ascii_digit s))"

definition strptime_dmY :: "string \<Rightarrow> error + (int \<times> int \<times> int)" where
  "strptime_dmY s =
     (case match_at STRPTIME_RE ([], s) of
        None \<Rightarrow> Inl StrptimeError
      | Some ((pre, post), g) \<Rightarrow>
          if post \<noteq> [] then Inl StrptimeError
          else (let y = group_int g 3; m = group_int g 2; d = group_int g 1
                in if 1 \<le> y \<and> 1 \<le> m \<and> m \<le> 12 \<and> 1 \<le> d \<and> d \<le> days_in_month y m
                   then Inr (y, m, d) else Inl StrptimeError))"

text \<open>
  \<^verbatim>\<open>strftime("%Y-%m-%d")\<close>: the month and the day on two digits, the year on
  four. (For a year below 1000 the C library decides whether \<^verbatim>\<open>%Y\<close> pads with
  zeros; the model pads.)
\<close>

definition digit_chr :: "int \<Rightarrow> char" where
  "digit_chr d = char_of (48 + nat (d mod 10))"

definition pad2 :: "int \<Rightarrow> string" where
  "pad2 n = [digit_chr (n div 10), digit_chr n]"

definition pad4 :: "int \<Rightarrow> string" where
  "pad4 n = [digit_chr (n div 1000), digit_chr (n div 100), digit_chr (n div 10), digit_chr n]"

definition strftime_Ymd :: "int \<times> int \<times> int \<Rightarrow> string" where
  "strftime_Ymd t = (case t of (y, m, d) \<Rightarrow> pad4 y @ ''-'' @ pad2 m @ ''-'' @ pad2 d)"

definition parse_date :: "string \<Rightarrow> error + string" where
  "parse_date raw = (case strptime_dmY (py_strip raw) of
                       Inl e \<Rightarrow> Inl e
                     | Inr t \<Rightarrow> Inr (strftime_Ymd t))"

section \<open>Header parsing\<close>

text \<open>
  \<^verbatim>\<open>DATUM_RE = Datum:\s*(\d{2}\.\d{2}\.\d{4})\<close> and
  \<^verbatim>\<open>TITEL_RE = Titel:\s*(LF[-\w]*)\s+(.+?)(?:\s+(\d{2}\.\d{2}\.\d{4})-(\d{2}\.\d{2}\.\d{4})?)?\s*$\<close>
  with MULTILINE.
\<close>

definition date_rx :: rx where
  "date_rx = Seq (Rep 2 is_ascii_digit) (Seq (Lit ''.'')
            (Seq (Rep 2 is_ascii_digit) (Seq (Lit ''.'') (Rep 4 is_ascii_digit))))"

definition DATUM_RE :: rx where
  "DATUM_RE = Seq (Lit ''Datum:'') (Seq (StarG py_isspace) (Grp 1 date_rx))"

definition TITEL_RE :: rx where
  "TITEL_RE =
     Seq (Lit ''Titel:'')
    (Seq (StarG py_isspace)
    (Seq (Grp 1 (Seq (Lit ''LF'') (StarG (\<lambda>c. c = CHR ''-'' \<or> py_isword c))))
    (Seq (PlusG py_isspace)
    (Seq (Grp 2 (PlusL py_isdot))
    (Seq (Opt (Seq (PlusG py_isspace)
              (Seq (Grp 3 date_rx)
              (Seq (Lit ''-'')
                   (Opt (Grp 4 date_rx))))))
    (Seq (StarG py_isspace) Eol))))))"

record header =
  datum :: string
  lernfeld_id :: "string option"
  titel :: string
  start_datum :: "string option"
  end_datum :: "string option"

text \<open>\<^verbatim>\<open>parse_date(raw) if raw else None\<close>, where \<open>raw\<close> is a group that may
  be \<^verbatim>\<open>None\<close>.\<close>

definition parse_date_opt :: "string option \<Rightarrow> error + string option" where
  "parse_date_opt raw =
     (case raw of
        None \<Rightarrow> Inr None
      | Some s \<Rightarrow> if s = [] then Inr None
                  else (case parse_date s of Inl e \<Rightarrow> Inl e | Inr d \<Rightarrow> Inr (Some d)))"

text \<open>
  Both searches run first; the two checks follow in the order of the source;
  the fields of the result are then computed from top to bottom, so the first
  date that fails to convert is the one that raises. A group that took part in
  no match is \<^verbatim>\<open>None\<close>, on which \<^verbatim>\<open>.strip()\<close> would raise
  (\<open>UnpackError\<close> stands for that failure here; it never happens, since groups 1
  and 2 are part of every match).
\<close>

definition parse_header :: "string \<Rightarrow> error + header" where
  "parse_header txt =
     (let datum_m = re_search DATUM_RE txt;
          titel_m = re_search TITEL_RE txt
      in case datum_m of
           None \<Rightarrow> Inl DatumNotFound
         | Some dg \<Rightarrow>
        (case titel_m of
           None \<Rightarrow> Inl TitelNotFound
         | Some tg \<Rightarrow>
        (let start_raw = tg 3; end_raw = tg 4
         in case dg 1 of None \<Rightarrow> Inl UnpackError | Some draw \<Rightarrow>
           (case parse_date draw of Inl e \<Rightarrow> Inl e | Inr d \<Rightarrow>
           (case tg 2 of None \<Rightarrow> Inl UnpackError | Some traw \<Rightarrow>
           (case parse_date_opt start_raw of Inl e \<Rightarrow> Inl e | Inr sd \<Rightarrow>
           (case parse_date_opt end_raw of Inl e \<Rightarrow> Inl e | Inr ed \<Rightarrow>
              Inr \<lparr>datum = d, lernfeld_id = tg 1, titel = py_strip traw,
                   start_datum = sd, end_datum = ed\<rparr>)))))))"

section \<open>The name splitter\<close>

text \<open>\<^verbatim>\<open>\bDozent\b\<close>, the pattern \<^verbatim>\<open>_first_dozent\<close> deletes.\<close>

definition DOZENT_RE :: rx where
  "DOZENT_RE = Seq WordB (Seq (Lit ''Dozent'') WordB)"

text \<open>
  The loop over \<^verbatim>\<open>enumerate(vorname_words)\<close>: at the first word equal to the
  last name the list is cut before that word and the loop ends.
\<close>

fun vorname_loop :: "string \<Rightarrow> string list \<Rightarrow> nat \<Rightarrow> string list \<Rightarrow> string list" where
  "vorname_loop nachname vws i [] = vws"
| "vorname_loop nachname vws i (w # rest) =
     (if w = nachname then take i vws else vorname_loop nachname vws (Suc i) rest)"

definition first_dozent :: "string list \<Rightarrow> error + (string \<times> string)" where
  "first_dozent raw_words =
     (let text0 = py_join '' '' raw_words;
          text1 = py_strip (re_sub_empty DOZENT_RE text0)
      in if text1 = [] then Inr ([], [])
         else if CHR '','' \<in> set text1 then
           (case py_split1 (CHR '','') text1 of
              [nachname0, rest] \<Rightarrow>
                (let nachname = py_strip nachname0;
                     vorname_words = py_split (py_strip rest);
                     vorname_words' = vorname_loop nachname vorname_words 0 vorname_words;
                     vorname = py_strip (py_join '' '' vorname_words')
                 in Inr (nachname, vorname))
            | _ \<Rightarrow> Inl UnpackError)
         else
           (let parts = py_split text1;
                nachname = (if parts \<noteq> [] then last parts else []);
                vorname = py_join '' '' (butlast parts)
            in Inr (nachname, vorname)))"

section \<open>Row extraction\<close>

text \<open>
  A word of \<^verbatim>\<open>page.extract_words\<close> is a dictionary with the keys
  \<^verbatim>\<open>text\<close>, \<^verbatim>\<open>x0\<close>, \<^verbatim>\<open>top\<close>, \<^verbatim>\<open>bottom\<close>. The coordinates are Python
  floats; they are modelled as rationals, so rounding, infinities and NaN are
  outside the model. The page itself is outside the model too:
  \<^verbatim>\<open>parse_rows_from_page\<close> takes the list of words the page yields.
\<close>

record pword =
  w_text :: string
  w_x0 :: rat
  w_top :: rat
  w_bottom :: rat

definition COL_STUNDE :: "rat \<times> rat" where
  "COL_STUNDE = (30, 74)"

definition COL_LEHRINHALTE :: "rat \<times> rat" where
  "COL_LEHRINHALTE = (74, 359)"

definition COL_DOZENT :: "rat \<times> rat" where
  "COL_DOZENT = (459, 549)"

definition HEADER_NOISE :: "string set" where
  "HEADER_NOISE = {''Stunde'', ''Lehrinhalte'', ''Lernformat/-methodik'',
                   ''Lernformat/'', ''-methodik'', ''Dozent'',
                   ''Unterrichtsbeginn:'', ''08:30''}"

definition words_in_col :: "pword list \<Rightarrow> rat \<Rightarrow> rat \<Rightarrow> rat \<Rightarrow> rat \<Rightarrow> string list" where
  "words_in_col words x0 x1 y0 y1 =
     map w_text (filter (\<lambda>w. x0 \<le> w_x0 w \<and> w_x0 w < x1 \<and> y0 \<le> w_top w \<and> w_top w < y1) words)"

text \<open>
  The list comprehension that collects the slot numbers. The conditions are
  tried from left to right for each word in turn, so \<^verbatim>\<open>int\<close> is called on
  every word whose text passes \<^verbatim>\<open>isdigit\<close>, whatever its column, and the first
  such call that fails ends the whole extraction.
\<close>

fun stunden_raw :: "pword list \<Rightarrow> error + (int \<times> rat) list" where
  "stunden_raw [] = Inr []"
| "stunden_raw (w # ws) =
     (if py_isdigit (w_text w) then
        (case py_int (w_text w) of
           Inl e \<Rightarrow> Inl e
         | Inr n \<Rightarrow>
             (case stunden_raw ws of
                Inl e \<Rightarrow> Inl e
              | Inr r \<Rightarrow>
                  Inr (if 1 \<le> n \<and> n \<le> 9 \<and> fst COL_STUNDE \<le> w_x0 w \<and> w_x0 w < snd COL_STUNDE
                       then (n, w_top w) # r else r)))
      else stunden_raw ws)"

text \<open>The deduplication loop with its \<^verbatim>\<open>seen\<close> set and the list it appends to.\<close>

fun dedup_loop :: "int set \<Rightarrow> (int \<times> rat) list \<Rightarrow> (int \<times> rat) list \<Rightarrow> (int \<times> rat) list" where
  "dedup_loop seen acc [] = acc"
| "dedup_loop seen acc ((nr, tp) # rest) =
     (if nr \<notin> seen then dedup_loop (insert nr seen) (acc @ [(nr, tp)]) rest
      else dedup_loop seen acc rest)"

text \<open>\<^verbatim>\<open>max(..., default=600)\<close> over the bottoms below 650.\<close>

definition table_bottom :: "pword list \<Rightarrow> rat" where
  "table_bottom words =
     (case filter (\<lambda>b. b < 650) (map w_bottom words) of
        [] \<Rightarrow> 600
      | b # bs \<Rightarrow> foldl max b bs)"

text \<open>The loop over \<^verbatim>\<open>enumerate(stunden)\<close> that builds the y-ranges; both
  index reads are guarded as in the source. The midpoints are exact here, where
  the source rounds them to a float.\<close>

definition boundary_at :: "(int \<times> rat) list \<Rightarrow> rat \<Rightarrow> nat \<Rightarrow> int \<times> rat \<times> rat" where
  "boundary_at stunden tb i =
     (let nr = fst (stunden ! i); tp = snd (stunden ! i);
          y_start = (if i > 0 then (snd (stunden ! (i - 1)) + tp) / 2 else tp - 30);
          y_end = (if i + 1 < length stunden then (tp + snd (stunden ! (i + 1))) / 2 else tb)
      in (nr, y_start, y_end))"

definition boundaries :: "(int \<times> rat) list \<Rightarrow> rat \<Rightarrow> (int \<times> rat \<times> rat) list" where
  "boundaries stunden tb = map (boundary_at stunden tb) [0..<length stunden]"

record lesson_row =
  stunde :: int
  inhalt :: string
  dozent_vorname :: string
  dozent_nachname :: string

definition row_of :: "pword list \<Rightarrow> int \<times> rat \<times> rat \<Rightarrow> error + lesson_row" where
  "row_of words b =
     (case b of (nr, y0, y1) \<Rightarrow>
       (let inhalt_words = words_in_col words (fst COL_LEHRINHALTE) (snd COL_LEHRINHALTE) y0 y1;
            dozent_words = words_in_col words (fst COL_DOZENT) (snd COL_DOZENT) y0 y1;
            inhalt_words' = filter (\<lambda>w. w \<notin> HEADER_NOISE) inhalt_words
        in case first_dozent dozent_words of
             Inl e \<Rightarrow> Inl e
           | Inr (nachname, vorname) \<Rightarrow>
               Inr \<lparr>stunde = nr, inhalt = py_join '' '' inhalt_words',
                    dozent_vorname = vorname, dozent_nachname = nachname\<rparr>))"

fun rows_loop :: "pword list \<Rightarrow> (int \<times> rat \<times> rat) list \<Rightarrow> error + lesson_row list" where
  "rows_loop words [] = Inr []"
| "rows_loop words (b # bs) =
     (case row_of words b of
        Inl e \<Rightarrow> Inl e
      | Inr r \<Rightarrow> (case rows_loop words bs of Inl e \<Rightarrow> Inl e | Inr rs \<Rightarrow> Inr (r # rs)))"

text \<open>
  The row boundary locator: the first three steps of
  \<^verbatim>\<open>parse_rows_from_page\<close>. \<^verbatim>\<open>sorted\<close> is stable, as \<^const>\<open>sort_key\<close> is.
\<close>

definition stunden_dedup :: "pword list \<Rightarrow> error + (int \<times> rat) list" where
  "stunden_dedup words =
     (case stunden_raw words of
        Inl e \<Rightarrow> Inl e
      | Inr raw \<Rightarrow>
          (let stunden = sort_key fst raw
           in if stunden = [] then Inl NoStundeNumbers
              else Inr (dedup_loop {} [] stunden)))"

definition row_boundaries :: "pword list \<Rightarrow> error + (int \<times> rat \<times> rat) list" where
  "row_boundaries words =
     (case stunden_dedup words of
        Inl e \<Rightarrow> Inl e
      | Inr stunden \<Rightarrow> Inr (boundaries stunden (table_bottom words)))"

definition parse_rows_from_page :: "pword list \<Rightarrow> error + lesson_row list" where
  "parse_rows_from_page words =
     (case row_boundaries words of
        Inl e \<Rightarrow> Inl e
      | Inr bs \<Rightarrow> rows_loop words bs)"

section \<open>Notions used in the statements\<close>

subsection \<open>Slot anchors\<close>

text \<open>
  A word is a slot anchor when the comprehension of \<^const>\<open>stunden_raw\<close> keeps
  it: its text passes \<^verbatim>\<open>isdigit\<close>, \<^verbatim>\<open>int\<close> gives a value between 1 and 9
  for it, and its left edge lies in the Stunde column. \<open>int_fails\<close> holds for a
  word on which the comprehension raises: its text passes \<^verbatim>\<open>isdigit\<close> and
  \<^verbatim>\<open>int\<close> rejects it.
\<close>

definition int_fails :: "pword \<Rightarrow> bool" where
  "int_fails w = (py_isdigit (w_text w) \<and> py_int (w_text w) = Inl IntLiteralError)"

definition anchor_nr :: "pword \<Rightarrow> int option" where
  "anchor_nr w =
     (if py_isdigit (w_text w) then
        (case py_int (w_text w) of
           Inl e \<Rightarrow> None
         | Inr n \<Rightarrow> if 1 \<le> n \<and> n \<le> 9 \<and> 30 \<le> w_x0 w \<and> w_x0 w < 74 then Some n else None)
      else None)"

definition anchor_entry :: "pword \<Rightarrow> (int \<times> rat) option" where
  "anchor_entry w = map_option (\<lambda>n. (n, w_top w)) (anchor_nr w)"

text \<open>The anchor the specification describes: the text is one digit from 1 to 9.\<close>

definition single_digit_anchor :: "pword \<Rightarrow> bool" where
  "single_digit_anchor w =
     (length (w_text w) = 1 \<and> in_range 49 57 (hd (w_text w)) \<and> 30 \<le> w_x0 w \<and> w_x0 w < 74)"

text \<open>The top of the first word, in the order of the page, that is an anchor
  for slot \<open>n\<close>; and the slots that have an anchor, in ascending order.\<close>

definition first_anchor_top :: "pword list \<Rightarrow> int \<Rightarrow> rat option" where
  "first_anchor_top words n = map_option w_top (find (\<lambda>w. anchor_nr w = Some n) words)"

definition slots :: "pword list \<Rightarrow> int list" where
  "slots words = filter (\<lambda>n. list_ex (\<lambda>w. anchor_nr w = Some n) words) [1..9]"


subsection \<open>Row spans\<close>

text \<open>
  The vertical extent of a row is half-open, as \<^const>\<open>words_in_col\<close> reads it:
  a word belongs to the row when \<open>y0 \<le> top < y1\<close>. A list of rows partitions
  \<open>[lo, hi)\<close> when the extents are pairwise disjoint and their union is that
  interval.
\<close>

definition y_start :: "int \<times> rat \<times> rat \<Rightarrow> rat" where
  "y_start b = fst (snd b)"

definition y_end :: "int \<times> rat \<times> rat \<Rightarrow> rat" where
  "y_end b = snd (snd b)"

definition span_set :: "int \<times> rat \<times> rat \<Rightarrow> rat set" where
  "span_set b = {y_start b ..< y_end b}"

definition spans_partition :: "(int \<times> rat \<times> rat) list \<Rightarrow> rat \<Rightarrow> rat \<Rightarrow> bool" where
  "spans_partition bs lo hi =
     ((\<forall>i<length bs. \<forall>j<length bs. i \<noteq> j \<longrightarrow> span_set (bs ! i) \<inter> span_set (bs ! j) = {})
      \<and> (\<Union>b\<in>set bs. span_set b) = {lo ..< hi})"

definition mk_word :: "string \<Rightarrow> rat \<Rightarrow> rat \<Rightarrow> rat \<Rightarrow> pword" where
  "mk_word t x y b = \<lparr>w_text = t, w_x0 = x, w_top = y, w_bottom = b\<rparr>"

subsection \<open>The words of a row\<close>

text \<open>
  A word lies in a span when its top does, the start included and the end
  excluded. The content words of a span are the texts, in the order of the
  page, of the words in it whose left edge lies in the Lehrinhalte column and
  whose text is no entry of the denylist; the instructor words of a span are
  the texts of all the words in it whose left edge lies in the Dozent column.
\<close>

definition in_span :: "int \<times> rat \<times> rat \<Rightarrow> pword \<Rightarrow> bool" where
  "in_span b w = (y_start b \<le> w_top w \<and> w_top w < y_end b)"

definition content_words :: "pword list \<Rightarrow> int \<times> rat \<times> rat \<Rightarrow> string list" where
  "content_words words b =
     map w_text (filter (\<lambda>w. 74 \<le> w_x0 w \<and> w_x0 w < 359 \<and> in_span b w
                              \<and> w_text w \<notin> HEADER_NOISE) words)"

definition instructor_words :: "pword list \<Rightarrow> int \<times> rat \<times> rat \<Rightarrow> string list" where
  "instructor_words words b =
     map w_text (filter (\<lambda>w. 459 \<le> w_x0 w \<and> w_x0 w < 549 \<and> in_span b w) words)"

subsection \<open>Example pages\<close>

definition words_531 :: "pword list" where
  "words_531 = [mk_word ''5'' 40 500 510, mk_word ''1'' 40 100 110, mk_word ''3'' 40 300 310]"


definition words_leading_zero :: "pword list" where
  "words_leading_zero = [mk_word ''01'' 40 100 110]"

definition words_inverted :: "pword list" where
  "words_inverted = [mk_word ''1'' 40 300 310, mk_word ''2'' 40 100 110]"

definition words_noise_dozent :: "pword list" where
  "words_noise_dozent = [mk_word ''1'' 40 100 110, mk_word ''08:30'' 470 100 110]"

definition words_noise_inhalt :: "pword list" where
  "words_noise_inhalt =
     [mk_word ''1'' 40 100 110, mk_word ''Lehrinhalte'' 80 90 100,
      mk_word ''Einfuehrung'' 80 100 110, mk_word ''08:30'' 200 100 110]"

subsection \<open>The instructor text and its label\<close>

text \<open>
  The text the name splitter works on: the words joined by single spaces, the
  label deleted by the substitution, the result trimmed. \<open>spec_label_removed\<close>
  is the reading of the specification, which drops the words equal to the
  label before joining.\<close>

definition dozent_text :: "string list \<Rightarrow> string" where
  "dozent_text ws = py_strip (re_sub_empty DOZENT_RE (py_join '' '' ws))"

definition spec_label_removed :: "string list \<Rightarrow> string" where
  "spec_label_removed ws = py_join '' '' (filter (\<lambda>t. t \<noteq> ''Dozent'') ws)"

text \<open>
  The label pattern \<^verbatim>\<open>\bDozent\b\<close> matches at a position, given the text before and
  after it, when "Dozent" follows with a word character neither directly
  before nor directly after it.\<close>

definition word_before :: "string \<Rightarrow> bool" where
  "word_before pre = (pre \<noteq> [] \<and> py_isword (last pre))"

definition word_after :: "string \<Rightarrow> bool" where
  "word_after post = (post \<noteq> [] \<and> py_isword (hd post))"

definition label_at :: "string \<Rightarrow> string \<Rightarrow> bool" where
  "label_at pre post = (\<not> word_before pre \<and> (\<exists>r. post = ''Dozent'' @ r \<and> \<not> word_after r))"



subsection \<open>What a pattern matches\<close>

text \<open>
  \<open>rx_match r p q\<close> holds when the pattern \<open>r\<close> can consume the text between the
  positions \<open>p\<close> and \<open>q\<close>, whatever the order in which the matcher \<^const>\<open>ms\<close> tries
  the alternatives; a pattern occurs in a text when it matches from some position
  of it.\<close>

fun rx_match :: "rx \<Rightarrow> pos \<Rightarrow> pos \<Rightarrow> bool" where
  "rx_match (Lit l) p q = (snd p = l @ snd q \<and> fst q = fst p @ l)"
| "rx_match (Chr P) p q = (\<exists>c. P c \<and> snd p = c # snd q \<and> fst q = fst p @ [c])"
| "rx_match (StarG P) p q = (\<exists>w. list_all P w \<and> snd p = w @ snd q \<and> fst q = fst p @ w)"
| "rx_match (PlusG P) p q =
     (\<exists>w. w \<noteq> [] \<and> list_all P w \<and> snd p = w @ snd q \<and> fst q = fst p @ w)"
| "rx_match (PlusL P) p q =
     (\<exists>w. w \<noteq> [] \<and> list_all P w \<and> snd p = w @ snd q \<and> fst q = fst p @ w)"
| "rx_match (Rep n P) p q =
     (\<exists>w. length w = n \<and> list_all P w \<and> snd p = w @ snd q \<and> fst q = fst p @ w)"
| "rx_match (Seq a b) p q = (\<exists>m. rx_match a p m \<and> rx_match b m q)"
| "rx_match (Alt a b) p q = (rx_match a p q \<or> rx_match b p q)"
| "rx_match (Opt a) p q = (rx_match a p q \<or> q = p)"
| "rx_match (Grp n a) p q = rx_match a p q"
| "rx_match Eol p q = (q = p \<and> (snd p = [] \<or> hd (snd p) = CHR 0x0A))"
| "rx_match WordB p q = (q = p \<and> at_word_boundary p)"

definition occurs :: "rx \<Rightarrow> string \<Rightarrow> bool" where
  "occurs r s = (\<exists>u v q. s = u @ v \<and> rx_match r (u, v) q)"

text \<open>
  A pattern seen as a set of words: \<open>consumes L p q\<close> holds when the text between
  \<open>p\<close> and \<open>q\<close> is a word of \<open>L\<close>, and \<open>cat\<close> concatenates two sets of words.\<close>

definition consumes :: "(string \<Rightarrow> bool) \<Rightarrow> pos \<Rightarrow> pos \<Rightarrow> bool" where
  "consumes L p q = (\<exists>w. L w \<and> snd p = w @ snd q \<and> fst q = fst p @ w)"

definition cat :: "(string \<Rightarrow> bool) \<Rightarrow> (string \<Rightarrow> bool) \<Rightarrow> string \<Rightarrow> bool" where
  "cat L1 L2 w = (\<exists>w1 w2. w = w1 @ w2 \<and> L1 w1 \<and> L2 w2)"

subsection \<open>The header labels\<close>

text \<open>
  The date pattern is present in a text when the text holds "Datum:", optional
  whitespace and a date shape, two digits, a dot, two digits, a dot and four
  digits.\<close>

definition date_shape :: "string \<Rightarrow> bool" where
  "date_shape d =
     (\<exists>a b c. d = a @ ''.'' @ b @ ''.'' @ c \<and> length a = 2 \<and> length b = 2 \<and> length c = 4
              \<and> list_all is_ascii_digit a \<and> list_all is_ascii_digit b \<and> list_all is_ascii_digit c)"

definition datum_label_in :: "string \<Rightarrow> bool" where
  "datum_label_in s =
     (\<exists>u sp d v. s = u @ ''Datum:'' @ sp @ d @ v \<and> list_all py_isspace sp \<and> date_shape d)"

text \<open>
  The title pattern is present in a text when the text holds "Titel:", optional
  whitespace, "LF" followed by word characters and hyphens, whitespace, a
  non-empty title without a line break, optionally whitespace and a date range
  whose end date may be missing, then optional whitespace up to the end of
  the text or of a line. \<open>TITEL_BODY\<close> is \<^const>\<open>TITEL_RE\<close> without the final
  end-of-line test and \<open>body_lang\<close> the set of words it consumes.\<close>

definition is_code_char :: "char \<Rightarrow> bool" where
  "is_code_char c = (c = CHR ''-'' \<or> py_isword c)"

definition range_tail :: "string \<Rightarrow> bool" where
  "range_tail t =
     (t = [] \<or> (\<exists>sp d1 d2. t = sp @ d1 @ ''-'' @ d2 \<and> sp \<noteq> [] \<and> list_all py_isspace sp
                   \<and> date_shape d1 \<and> (d2 = [] \<or> date_shape d2)))"

definition titel_label_in :: "string \<Rightarrow> bool" where
  "titel_label_in s =
     (\<exists>u sp1 code sp2 title tail sp3 v.
        s = u @ ''Titel:'' @ sp1 @ ''LF'' @ code @ sp2 @ title @ tail @ sp3 @ v
        \<and> list_all py_isspace sp1 \<and> list_all is_code_char code
        \<and> (sp2 \<noteq> [] \<and> list_all py_isspace sp2)
        \<and> (title \<noteq> [] \<and> list_all py_isdot title)
        \<and> range_tail tail \<and> list_all py_isspace sp3
        \<and> (v = [] \<or> hd v = CHR 0x0A))"

definition TITEL_BODY :: rx where
  "TITEL_BODY =
     Seq (Lit ''Titel:'')
    (Seq (StarG py_isspace)
    (Seq (Grp 1 (Seq (Lit ''LF'') (StarG (\<lambda>c. c = CHR ''-'' \<or> py_isword c))))
    (Seq (PlusG py_isspace)
    (Seq (Grp 2 (PlusL py_isdot))
    (Seq (Opt (Seq (PlusG py_isspace)
              (Seq (Grp 3 date_rx)
              (Seq (Lit ''-'')
                   (Opt (Grp 4 date_rx))))))
         (StarG py_isspace))))))"

definition body_lang :: "string \<Rightarrow> bool" where
  "body_lang w =
     (\<exists>sp1 code sp2 title tail sp3.
        w = ''Titel:'' @ sp1 @ ''LF'' @ code @ sp2 @ title @ tail @ sp3
        \<and> list_all py_isspace sp1 \<and> list_all is_code_char code
        \<and> (sp2 \<noteq> [] \<and> list_all py_isspace sp2)
        \<and> (title \<noteq> [] \<and> list_all py_isdot title)
        \<and> range_tail tail \<and> list_all py_isspace sp3)"

subsection \<open>Example headers\<close>

definition header_example :: string where
  "header_example = ''Datum: 05.03.2024 ... Titel: LF12 Grundlagen 01.03.2024-05.04.2024''"

definition header_bad_date :: string where
  "header_bad_date = ''Datum: 31.02.2024 Titel: LF12 Grundlagen''"

section \<open>Properties of the row locator\<close>

lemma py_int_cases: "py_int s = Inl IntLiteralError \<or> (\<exists>n. py_int s = Inr n)"
  by (simp add: py_int_def)

lemma stunden_raw_fails:
  "\<exists>w\<in>set words. int_fails w \<Longrightarrow> stunden_raw words = Inl IntLiteralError"
proof (induction words)
  case Nil
  then show ?case by simp
next
  case (Cons w ws)
  show ?case
  proof (cases "int_fails w")
    case True
    then show ?thesis by (simp add: int_fails_def)
  next
    case False
    with Cons.prems have "\<exists>w\<in>set ws. int_fails w" by auto
    with Cons.IH have r: "stunden_raw ws = Inl IntLiteralError" by simp
    from py_int_cases[of "w_text w"] show ?thesis
    proof
      assume "py_int (w_text w) = Inl IntLiteralError"
      then show ?thesis using r by simp
    next
      assume "\<exists>n. py_int (w_text w) = Inr n"
      then obtain n where "py_int (w_text w) = Inr n" by blast
      then show ?thesis using r by simp
    qed
  qed
qed

lemma stunden_raw_ok:
  "\<forall>w\<in>set words. \<not> int_fails w \<Longrightarrow> stunden_raw words = Inr (List.map_filter anchor_entry words)"
proof (induction words)
  case Nil
  then show ?case by (simp add: List.map_filter_simps)
next
  case (Cons w ws)
  then have IH: "stunden_raw ws = Inr (List.map_filter anchor_entry ws)" by simp
  from Cons.prems have nf: "\<not> int_fails w" by simp
  show ?case
  proof (cases "py_isdigit (w_text w)")
    case True
    with nf py_int_cases[of "w_text w"] obtain n where n: "py_int (w_text w) = Inr n"
      by (auto simp: int_fails_def)
    have "anchor_entry w =
        (if 1 \<le> n \<and> n \<le> 9 \<and> 30 \<le> w_x0 w \<and> w_x0 w < 74 then Some (n, w_top w) else None)"
      using True n by (simp add: anchor_entry_def anchor_nr_def)
    then show ?thesis using True IH n
      by (simp add: List.map_filter_simps COL_STUNDE_def)
  next
    case False
    then have "anchor_nr w = None" by (simp add: anchor_nr_def)
    then have "anchor_entry w = None" by (simp add: anchor_entry_def)
    then show ?thesis using False IH
      by (simp add: List.map_filter_simps)
  qed
qed

lemma stunden_raw_cases:
  "stunden_raw words = (if \<exists>w\<in>set words. int_fails w then Inl IntLiteralError
                        else Inr (List.map_filter anchor_entry words))"
  using stunden_raw_fails stunden_raw_ok by auto

lemma map_of_anchor_entries:
  "map_of (List.map_filter anchor_entry words) n = first_anchor_top words n"
  by (induction words)
     (auto simp: List.map_filter_simps anchor_entry_def first_anchor_top_def split: option.splits)

lemma anchor_entries_keys:
  "fst ` set (List.map_filter anchor_entry words) = {n. \<exists>w\<in>set words. anchor_nr w = Some n}"
  by (induction words)
     (auto simp: List.map_filter_simps anchor_entry_def split: option.splits)

lemma anchor_nr_range: "anchor_nr w = Some n \<Longrightarrow> 1 \<le> n \<and> n \<le> 9"
  by (auto simp: anchor_nr_def split: if_splits sum.splits)

lemma dedup_loop_acc: "dedup_loop seen acc xs = acc @ dedup_loop seen [] xs"
proof (induction xs arbitrary: seen acc)
  case Nil
  then show ?case by simp
next
  case (Cons x xs)
  obtain nr tp where x: "x = (nr, tp)" by (cases x)
  show ?case
  proof (cases "nr \<in> seen")
    case True
    then show ?thesis using Cons.IH[of seen acc] x by simp
  next
    case False
    then show ?thesis
      using Cons.IH[of "insert nr seen" "acc @ [(nr, tp)]"] Cons.IH[of "insert nr seen" "[(nr, tp)]"] x
      by simp
  qed
qed

lemma dedup_loop_Cons:
  "dedup_loop seen [] ((nr, tp) # xs) =
     (if nr \<in> seen then dedup_loop seen [] xs else (nr, tp) # dedup_loop (insert nr seen) [] xs)"
  using dedup_loop_acc[of "insert nr seen" "[(nr, tp)]" xs] by simp

lemma dedup_keys: "fst ` set (dedup_loop seen [] xs) = fst ` set xs - seen"
proof (induction xs arbitrary: seen)
  case Nil
  then show ?case by simp
next
  case (Cons x xs)
  obtain nr tp where x: "x = (nr, tp)" by (cases x)
  show ?case unfolding x dedup_loop_Cons using Cons.IH by auto
qed

lemma dedup_distinct: "distinct (map fst (dedup_loop seen [] xs))"
proof (induction xs arbitrary: seen)
  case Nil
  then show ?case by simp
next
  case (Cons x xs)
  obtain nr tp where x: "x = (nr, tp)" by (cases x)
  have "nr \<notin> fst ` set (dedup_loop (insert nr seen) [] xs)"
    by (simp add: dedup_keys)
  then show ?case unfolding x dedup_loop_Cons using Cons.IH by auto
qed

lemma dedup_sorted:
  "sorted (map fst xs) \<Longrightarrow> sorted (map fst (dedup_loop seen [] xs))"
proof (induction xs arbitrary: seen)
  case Nil
  then show ?case by simp
next
  case (Cons x xs)
  obtain nr tp where x: "x = (nr, tp)" by (cases x)
  from Cons.prems x have s: "sorted (map fst xs)" and le: "\<forall>k\<in>fst ` set xs. nr \<le> k"
    by auto
  have "\<forall>k\<in>fst ` set (dedup_loop (insert nr seen) [] xs). nr \<le> k"
    using le by (auto simp: dedup_keys)
  then show ?case unfolding x dedup_loop_Cons using Cons.IH[OF s] by auto
qed

lemma dedup_first:
  "(n, t) \<in> set (dedup_loop seen [] xs) \<Longrightarrow> map_of xs n = Some t"
proof (induction xs arbitrary: seen)
  case Nil
  then show ?case by simp
next
  case (Cons x xs)
  obtain nr tp where x: "x = (nr, tp)" by (cases x)
  show ?case
  proof (cases "nr \<in> seen")
    case True
    with Cons.prems x have mem: "(n, t) \<in> set (dedup_loop seen [] xs)"
      by (simp add: dedup_loop_Cons del: dedup_loop.simps)
    then have "n \<in> fst ` set (dedup_loop seen [] xs)" by force
    then have "n \<notin> seen" by (simp add: dedup_keys)
    with True have "n \<noteq> nr" by auto
    with Cons.IH[OF mem] x show ?thesis by simp
  next
    case False
    with Cons.prems x have "(n, t) = (nr, tp) \<or> (n, t) \<in> set (dedup_loop (insert nr seen) [] xs)"
      by (simp add: dedup_loop_Cons del: dedup_loop.simps)
    then show ?thesis
    proof
      assume "(n, t) = (nr, tp)"
      then show ?thesis using x by simp
    next
      assume mem: "(n, t) \<in> set (dedup_loop (insert nr seen) [] xs)"
      then have "n \<in> fst ` set (dedup_loop (insert nr seen) [] xs)" by force
      then have "n \<noteq> nr" by (simp add: dedup_keys)
      with Cons.IH[OF mem] x show ?thesis by simp
    qed
  qed
qed

lemma map_of_sort_key:
  fixes xs :: "(int \<times> rat) list"
  shows "map_of (sort_key fst xs) n = map_of xs n"
proof -
  have f: "\<And>ys :: (int \<times> rat) list.
      map_of ys n = (case filter (\<lambda>p. fst p = n) ys of [] \<Rightarrow> None | p # _ \<Rightarrow> Some (snd p))"
  proof -
    fix ys :: "(int \<times> rat) list"
    show "map_of ys n = (case filter (\<lambda>p. fst p = n) ys of [] \<Rightarrow> None | p # _ \<Rightarrow> Some (snd p))"
      by (induction ys) auto
  qed
  have "filter (\<lambda>p. fst p = n) (sort_key fst xs) = filter (\<lambda>p. fst p = n) xs"
    by (rule sort_key_stable)
  then show ?thesis by (simp add: f)
qed

lemma dedup_sorted_strict:
  "sorted_wrt (<) (map fst (dedup_loop {} [] (sort_key fst xs)))"
proof -
  have "sorted (map fst (dedup_loop {} [] (sort_key fst xs)))"
    by (rule dedup_sorted) simp
  then show ?thesis
    using dedup_distinct[of "{}" "sort_key fst xs"] by (simp add: strict_sorted_iff)
qed

lemma dedup_sort_char:
  "dedup_loop {} [] (sort_key fst xs) =
     map (\<lambda>n. (n, the (map_of xs n))) (sorted_list_of_set (fst ` set xs))"
proof -
  let ?d = "dedup_loop {} [] (sort_key fst xs)"
  have keys: "set (map fst ?d) = fst ` set xs" using dedup_keys[of "{}" "sort_key fst xs"] by simp
  have "sorted (map fst ?d)" "distinct (map fst ?d)"
    using dedup_sorted_strict[of xs] by (simp_all add: strict_sorted_iff)
  then have m: "map fst ?d = sorted_list_of_set (fst ` set xs)"
    using keys by (metis sorted_list_of_set.idem_if_sorted_distinct)
  have "?d = map (\<lambda>n. (n, the (map_of xs n))) (map fst ?d)"
  proof -
    have "\<And>p. p \<in> set ?d \<Longrightarrow> p = (fst p, the (map_of xs (fst p)))"
    proof -
      fix p assume "p \<in> set ?d"
      then have "(fst p, snd p) \<in> set ?d" by simp
      then have "map_of (sort_key fst xs) (fst p) = Some (snd p)" by (rule dedup_first)
      then have "map_of xs (fst p) = Some (snd p)" by (simp add: map_of_sort_key)
      then show "p = (fst p, the (map_of xs (fst p)))" by simp
    qed
    then have "map (\<lambda>p. (fst p, the (map_of xs (fst p)))) ?d = ?d"
      by (intro map_idI) simp
    then show ?thesis by (simp add: comp_def)
  qed
  with m show ?thesis by simp
qed

lemma set_slots: "set (slots words) = {n. \<exists>w\<in>set words. anchor_nr w = Some n}"
  using anchor_nr_range by (auto simp: slots_def list_ex_iff)

lemma slots_eq: "slots words = sorted_list_of_set {n. \<exists>w\<in>set words. anchor_nr w = Some n}"
proof -
  have "sorted (slots words)" "distinct (slots words)"
    by (simp_all add: slots_def sorted_wrt_filter)
  then show ?thesis
    using set_slots[of words] by (metis sorted_list_of_set.idem_if_sorted_distinct)
qed

lemma stunden_dedup_char:
  assumes "stunden_dedup words = Inr d"
  shows "d = map (\<lambda>n. (n, the (first_anchor_top words n))) (slots words)"
    and "slots words \<noteq> []"
proof -
  from assms have nf: "\<not> (\<exists>w\<in>set words. int_fails w)"
    by (auto simp: stunden_dedup_def stunden_raw_cases split: if_splits)
  let ?raw = "List.map_filter anchor_entry words"
  from assms nf have ne: "sort_key fst ?raw \<noteq> []" and d: "d = dedup_loop {} [] (sort_key fst ?raw)"
    by (auto simp: stunden_dedup_def stunden_raw_cases Let_def split: if_splits)
  have k: "fst ` set ?raw = {n. \<exists>w\<in>set words. anchor_nr w = Some n}" by (rule anchor_entries_keys)
  show "d = map (\<lambda>n. (n, the (first_anchor_top words n))) (slots words)"
    unfolding d dedup_sort_char k slots_eq by (simp add: map_of_anchor_entries)
  from ne have "?raw \<noteq> []" by auto
  then obtain p where "p \<in> set ?raw" by (cases ?raw) auto
  then have "fst p \<in> fst ` set ?raw" by (rule imageI)
  then have "fst p \<in> set (slots words)" unfolding k set_slots .
  then show "slots words \<noteq> []" by auto
qed

section \<open>Properties of the extracted rows\<close>

lemma first_dozent_total: "\<exists>p. first_dozent ws = Inr p"
  by (simp add: first_dozent_def Let_def py_split1_def)

lemma row_of_total: "\<exists>r. row_of words b = Inr r \<and> stunde r = fst b"
proof -
  obtain nr y0 y1 where b: "b = (nr, y0, y1)" by (cases b)
  obtain l f where "first_dozent (words_in_col words (fst COL_DOZENT) (snd COL_DOZENT) y0 y1) = Inr (l, f)"
    using first_dozent_total by (metis surj_pair)
  then show ?thesis by (simp add: row_of_def b Let_def)
qed

lemma rows_loop_total: "\<exists>rows. rows_loop words bs = Inr rows \<and> map stunde rows = map fst bs"
proof (induction bs)
  case Nil
  then show ?case by simp
next
  case (Cons b bs)
  obtain r where r: "row_of words b = Inr r" "stunde r = fst b" using row_of_total by blast
  from Cons obtain rows where "rows_loop words bs = Inr rows" "map stunde rows = map fst bs" by blast
  with r show ?case by simp
qed





subsection \<open>Order of the rows\<close>




lemma parse_rows_NoStunde_iff:
  "parse_rows_from_page words = Inl NoStundeNumbers \<longleftrightarrow>
     (\<forall>w\<in>set words. \<not> int_fails w) \<and> (\<forall>w\<in>set words. anchor_nr w = None)"
proof (cases "\<exists>w\<in>set words. int_fails w")
  case True
  then show ?thesis
    by (auto simp: parse_rows_from_page_def row_boundaries_def stunden_dedup_def stunden_raw_cases)
next
  case False
  let ?raw = "List.map_filter anchor_entry words"
  have raw: "stunden_raw words = Inr ?raw" using False by (simp add: stunden_raw_cases)
  have e: "?raw = [] \<longleftrightarrow> (\<forall>w\<in>set words. anchor_nr w = None)"
  proof -
    have "?raw = [] \<longleftrightarrow> fst ` set ?raw = {}" by simp
    also have "\<dots> \<longleftrightarrow> (\<forall>w\<in>set words. anchor_nr w = None)"
      unfolding anchor_entries_keys
    proof (intro iffI ballI)
      fix w assume "{n. \<exists>w\<in>set words. anchor_nr w = Some n} = {}" "w \<in> set words"
      then show "anchor_nr w = None" by (cases "anchor_nr w") auto
    next
      assume "\<forall>w\<in>set words. anchor_nr w = None"
      then show "{n. \<exists>w\<in>set words. anchor_nr w = Some n} = {}" by auto
    qed
    finally show ?thesis .
  qed
  show ?thesis
  proof (cases "?raw = []")
    case True
    then show ?thesis using False e raw
      by (simp add: parse_rows_from_page_def row_boundaries_def stunden_dedup_def)
  next
    case False
    then have "sort_key fst ?raw \<noteq> []" by (metis length_0_conv length_sort)
    then obtain st where "stunden_dedup words = Inr st"
      using raw by (simp add: stunden_dedup_def Let_def)
    then obtain rows where "parse_rows_from_page words = Inr rows"
      using rows_loop_total by (auto simp: parse_rows_from_page_def row_boundaries_def)
    then show ?thesis using False e by simp
  qed
qed

lemma single_digit_anchor_nr:
  assumes "single_digit_anchor w"
  shows "\<exists>n. anchor_nr w = Some n"
proof -
  from assms obtain c where t: "w_text w = [c]" and c: "in_range 49 57 c"
    and x: "30 \<le> w_x0 w" "w_x0 w < 74"
    by (cases "w_text w") (auto simp: single_digit_anchor_def)
  from c have d: "is_ascii_digit c" "1 \<le> digit_val c" "digit_val c \<le> 9"
    by (auto simp: in_range_def is_ascii_digit_def digit_val_def)
  then have "py_isdigit (w_text w)" "py_int (w_text w) = Inr (digit_val c)"
    using t by (simp_all add: py_isdigit_def py_isdigit_char_def py_int_def int_max_str_digits_def
        digits_value_def)
  then show ?thesis using d x by (simp add: anchor_nr_def)
qed

subsection \<open>When no slot number is found\<close>

text \<open>
  Claim C9, amended. An anchor is a word in the Stunde column whose text passes
  \<^verbatim>\<open>isdigit\<close> and for which \<^verbatim>\<open>int\<close> gives a value from 1 to 9; the text "01"
  is one, though it is not a single digit. On every page where \<^verbatim>\<open>int\<close> accepts
  each text that passes \<^verbatim>\<open>isdigit\<close>, row extraction fails with \<open>NoStundeNumbers\<close>
  exactly when the page has no anchor, and it returns rows when the page has
  one. On every page with a one-digit anchor that failure is not raised.
\<close>

theorem no_rows_error_iff:
  "((\<forall>w\<in>set words. \<not> int_fails w) \<longrightarrow>
       (parse_rows_from_page words = Inl NoStundeNumbers \<longleftrightarrow> (\<forall>w\<in>set words. anchor_nr w = None))
     \<and> ((\<exists>w\<in>set words. anchor_nr w \<noteq> None) \<longrightarrow> (\<exists>rows. parse_rows_from_page words = Inr rows)))
   \<and> ((\<exists>w\<in>set words. single_digit_anchor w) \<longrightarrow> parse_rows_from_page words \<noteq> Inl NoStundeNumbers)"
proof -
  have a: "parse_rows_from_page words \<noteq> Inl NoStundeNumbers" if "\<exists>w\<in>set words. single_digit_anchor w"
    using that single_digit_anchor_nr by (fastforce simp: parse_rows_NoStunde_iff)
  have b: "\<exists>rows. parse_rows_from_page words = Inr rows"
    if "\<forall>w\<in>set words. \<not> int_fails w" and "\<exists>w\<in>set words. anchor_nr w \<noteq> None"
  proof -
    let ?raw = "List.map_filter anchor_entry words"
    from that have raw: "stunden_raw words = Inr ?raw" by (simp add: stunden_raw_cases)
    from that have "fst ` set ?raw \<noteq> {}" unfolding anchor_entries_keys by auto
    then have "?raw \<noteq> []" by auto
    then have "sort_key fst ?raw \<noteq> []" by (metis length_0_conv length_sort)
    then obtain st where "stunden_dedup words = Inr st"
      using raw by (simp add: stunden_dedup_def Let_def)
    then show ?thesis
      using rows_loop_total by (auto simp: parse_rows_from_page_def row_boundaries_def)
  qed
  from a b parse_rows_NoStunde_iff show ?thesis by blast
qed

theorem no_rows_error_counterexample:
  "\<not> list_ex single_digit_anchor words_leading_zero
   \<and> parse_rows_from_page words_leading_zero =
       Inr [\<lparr>stunde = 1, inhalt = [], dozent_vorname = [], dozent_nachname = []\<rparr>]"
  by (rule conjI; code_simp)

theorem no_rows_error_iff_witness:
  "parse_rows_from_page [mk_word ''x'' 40 100 110] = Inl NoStundeNumbers
   \<and> \<not> isl (parse_rows_from_page words_leading_zero)
   \<and> parse_rows_from_page [mk_word ''7'' 40 100 110] \<noteq> Inl NoStundeNumbers"
proof -
  have 1: "\<forall>w\<in>set [mk_word ''x'' 40 100 110]. \<not> int_fails w"
  proof -
    have "list_all (\<lambda>w. \<not> int_fails w) [mk_word ''x'' 40 100 110]" by code_simp
    then show ?thesis unfolding list_all_iff .
  qed
  have 2: "\<forall>w\<in>set [mk_word ''x'' 40 100 110]. anchor_nr w = None"
  proof -
    have "list_all (\<lambda>w. anchor_nr w = None) [mk_word ''x'' 40 100 110]" by code_simp
    then show ?thesis unfolding list_all_iff .
  qed
  have 3: "\<forall>w\<in>set words_leading_zero. \<not> int_fails w"
  proof -
    have "list_all (\<lambda>w. \<not> int_fails w) words_leading_zero" by code_simp
    then show ?thesis unfolding list_all_iff .
  qed
  have 4: "\<exists>w\<in>set words_leading_zero. anchor_nr w \<noteq> None"
  proof -
    have "list_ex (\<lambda>w. anchor_nr w \<noteq> None) words_leading_zero" by code_simp
    then show ?thesis unfolding list_ex_iff .
  qed
  have 5: "\<exists>w\<in>set [mk_word ''7'' 40 100 110]. single_digit_anchor w"
  proof -
    have "list_ex single_digit_anchor [mk_word ''7'' 40 100 110]" by code_simp
    then show ?thesis unfolding list_ex_iff .
  qed
  from no_rows_error_iff[of "[mk_word ''x'' 40 100 110]"] 1 2
  have x: "parse_rows_from_page [mk_word ''x'' 40 100 110] = Inl NoStundeNumbers" by blast
  from no_rows_error_iff[of words_leading_zero] 3 4
  obtain rows where "parse_rows_from_page words_leading_zero = Inr rows" by blast
  then have z: "\<not> isl (parse_rows_from_page words_leading_zero)" by simp
  from no_rows_error_iff[of "[mk_word ''7'' 40 100 110]"] 5
  have s: "parse_rows_from_page [mk_word ''7'' 40 100 110] \<noteq> Inl NoStundeNumbers" by blast
  from x z s show ?thesis by blast
qed

section \<open>Properties of the row spans\<close>

lemma chain_start_mono:
  fixes s e :: "nat \<Rightarrow> rat"
  assumes link: "\<forall>i. Suc i < n \<longrightarrow> e i = s (Suc i)" and le: "\<forall>i<n. s i \<le> e i"
  shows "i \<le> j \<Longrightarrow> j < n \<Longrightarrow> s i \<le> s j"
proof (induction j)
  case 0
  then show ?case by simp
next
  case (Suc j)
  show ?case
  proof (cases "i = Suc j")
    case True
    then show ?thesis by simp
  next
    case False
    with Suc.prems have ij: "i \<le> j" and j: "j < n" by auto
    have "s i \<le> s j" by (rule Suc.IH[OF ij j])
    also have "s j \<le> e j" using le j by simp
    also have "e j = s (Suc j)" using link Suc.prems by simp
    finally show ?thesis .
  qed
qed

lemma chain_end_le_start:
  fixes s e :: "nat \<Rightarrow> rat"
  assumes link: "\<forall>i. Suc i < n \<longrightarrow> e i = s (Suc i)" and le: "\<forall>i<n. s i \<le> e i"
    and ij: "i < j" and j: "j < n"
  shows "e i \<le> s j"
proof -
  from ij j have "Suc i < n" by simp
  with link have "e i = s (Suc i)" by simp
  also have "s (Suc i) \<le> s j" using chain_start_mono[OF link le, of "Suc i" j] ij j by simp
  finally show ?thesis .
qed

lemma chain_cover:
  fixes s e :: "nat \<Rightarrow> rat"
  assumes link: "\<forall>i. Suc i < n \<longrightarrow> e i = s (Suc i)"
  shows "k < n \<Longrightarrow> s 0 \<le> x \<Longrightarrow> x < e k \<Longrightarrow> \<exists>i\<le>k. s i \<le> x \<and> x < e i"
proof (induction k)
  case 0
  then show ?case by auto
next
  case (Suc k)
  show ?case
  proof (cases "s (Suc k) \<le> x")
    case True
    with Suc.prems show ?thesis by auto
  next
    case False
    moreover have "e k = s (Suc k)" using link Suc.prems by simp
    ultimately have "x < e k" by simp
    with Suc.IH Suc.prems obtain i where "i \<le> k" "s i \<le> x \<and> x < e i" by auto
    then show ?thesis by (intro exI[of _ i]) auto
  qed
qed

lemma chain_partition:
  assumes ne: "bs \<noteq> []"
    and link: "\<forall>i. Suc i < length bs \<longrightarrow> y_end (bs ! i) = y_start (bs ! Suc i)"
    and le: "\<forall>i<length bs. y_start (bs ! i) \<le> y_end (bs ! i)"
  shows "spans_partition bs (y_start (hd bs)) (y_end (last bs))"
proof -
  let ?n = "length bs"
  let ?s = "\<lambda>i. y_start (bs ! i)" and ?e = "\<lambda>i. y_end (bs ! i)"
  from ne have n: "0 < ?n" by simp
  have hd: "y_start (hd bs) = ?s 0" using ne by (simp add: hd_conv_nth)
  have lst: "y_end (last bs) = ?e (?n - 1)" using ne by (simp add: last_conv_nth)
  have disj: "span_set (bs ! i) \<inter> span_set (bs ! j) = {}" if "i < j" "j < ?n" for i j
  proof -
    have "?e i \<le> ?s j" using chain_end_le_start[of ?n ?e ?s i j] link le that by simp
    then show ?thesis by (auto simp: span_set_def)
  qed
  have d: "\<forall>i<?n. \<forall>j<?n. i \<noteq> j \<longrightarrow> span_set (bs ! i) \<inter> span_set (bs ! j) = {}"
  proof (intro allI impI)
    fix i j assume "i < ?n" "j < ?n" "i \<noteq> j"
    then consider "i < j" | "j < i" by linarith
    then show "span_set (bs ! i) \<inter> span_set (bs ! j) = {}"
    proof cases
      case 1
      then show ?thesis using disj \<open>j < ?n\<close> by simp
    next
      case 2
      then have "span_set (bs ! j) \<inter> span_set (bs ! i) = {}" using disj \<open>i < ?n\<close> by simp
      then show ?thesis by auto
    qed
  qed
  have u: "(\<Union>b\<in>set bs. span_set b) = {?s 0 ..< ?e (?n - 1)}"
  proof (intro equalityI subsetI)
    fix x assume "x \<in> (\<Union>b\<in>set bs. span_set b)"
    then obtain i where i: "i < ?n" and x: "?s i \<le> x" "x < ?e i"
      by (auto simp: in_set_conv_nth span_set_def)
    have "?s 0 \<le> ?s i" using chain_start_mono[of ?n ?e ?s 0 i] link le i by simp
    moreover have "?e i \<le> ?e (?n - 1)"
    proof (cases "i = ?n - 1")
      case True
      then show ?thesis by simp
    next
      case False
      with i have lt: "i < ?n - 1" by simp
      have "?e i \<le> ?s (?n - 1)" using chain_end_le_start[of ?n ?e ?s i "?n - 1"] link le lt n by simp
      also have "\<dots> \<le> ?e (?n - 1)" using le n by simp
      finally show ?thesis .
    qed
    ultimately show "x \<in> {?s 0 ..< ?e (?n - 1)}" using x by auto
  next
    fix x assume "x \<in> {?s 0 ..< ?e (?n - 1)}"
    then have "?s 0 \<le> x" "x < ?e (?n - 1)" by auto
    with chain_cover[of ?n ?e ?s "?n - 1" x] link n
    obtain i where "i \<le> ?n - 1" "?s i \<le> x \<and> x < ?e i" by auto
    moreover from this n have "i < ?n" by linarith
    ultimately have "i < ?n" "x \<in> span_set (bs ! i)" by (auto simp: span_set_def)
    then show "x \<in> (\<Union>b\<in>set bs. span_set b)" by (meson UN_I nth_mem)
  qed
  from d u show ?thesis unfolding spans_partition_def hd lst by blast
qed

lemma y_start_boundaries:
  "i < length st \<Longrightarrow> y_start (boundaries st tb ! i) =
     (if 0 < i then (snd (st ! (i - 1)) + snd (st ! i)) / 2 else snd (st ! i) - 30)"
  by (simp add: boundaries_def boundary_at_def y_start_def Let_def)

lemma y_end_boundaries:
  "i < length st \<Longrightarrow> y_end (boundaries st tb ! i) =
     (if i + 1 < length st then (snd (st ! i) + snd (st ! (i + 1))) / 2 else tb)"
  by (simp add: boundaries_def boundary_at_def y_end_def Let_def)

lemma boundaries_link:
  "Suc i < length st \<Longrightarrow> y_end (boundaries st tb ! i) = y_start (boundaries st tb ! Suc i)"
  by (simp add: y_start_boundaries y_end_boundaries)

lemma boundaries_ordered:
  assumes srt: "sorted (map snd st)" and lastle: "y_start (last (boundaries st tb)) \<le> tb"
    and i: "i < length st"
  shows "y_start (boundaries st tb ! i) \<le> y_end (boundaries st tb ! i)"
proof -
  have mono: "snd (st ! a) \<le> snd (st ! b)" if "a \<le> b" "b < length st" for a b
    using srt that by (simp add: sorted_iff_nth_mono)
  show ?thesis
  proof (cases "i + 1 < length st")
    case True
    have 1: "snd (st ! i) \<le> snd (st ! (i + 1))" using mono[of i "i + 1"] True by simp
    show ?thesis
    proof (cases "0 < i")
      case True
      have "snd (st ! (i - 1)) \<le> snd (st ! i)" using mono[of "i - 1" i] i by simp
      with 1 True \<open>i + 1 < length st\<close> i show ?thesis
        by (simp add: y_start_boundaries y_end_boundaries)
    next
      case False
      then have i0: "i = 0" by simp
      have "y_start (boundaries st tb ! 0) = snd (st ! 0) - 30"
        using i i0 by (simp add: y_start_boundaries)
      moreover have "y_end (boundaries st tb ! 0) =
          (if 0 + 1 < length st then (snd (st ! 0) + snd (st ! (0 + 1))) / 2 else tb)"
        using i i0 by (intro y_end_boundaries) simp
      ultimately show ?thesis using 1 i0 True by simp
    qed
  next
    case False
    with i have il: "i = length st - 1" by simp
    have "boundaries st tb \<noteq> []" using i by (auto simp: boundaries_def)
    then have "last (boundaries st tb) = boundaries st tb ! i"
      using il by (simp add: last_conv_nth boundaries_def)
    with lastle have "y_start (boundaries st tb ! i) \<le> tb" by simp
    moreover have "y_end (boundaries st tb ! i) = tb" using False i by (simp add: y_end_boundaries)
    ultimately show ?thesis by simp
  qed
qed

lemma table_bottom_Max:
  "table_bottom words =
     (if \<exists>w\<in>set words. w_bottom w < 650
      then Max {b. \<exists>w\<in>set words. b = w_bottom w \<and> b < 650} else 600)"
proof -
  let ?bs = "filter (\<lambda>b. b < 650) (map w_bottom words)"
  have s: "set ?bs = {b. \<exists>w\<in>set words. b = w_bottom w \<and> b < 650}" by auto
  show ?thesis
  proof (cases ?bs)
    case Nil
    then have "set ?bs = {}" by simp
    then have "\<not> (\<exists>w\<in>set words. w_bottom w < 650)" unfolding s by auto
    with Nil show ?thesis by (simp add: table_bottom_def)
  next
    case (Cons b bs)
    have "foldl max b bs = fold max bs b"
      by (simp add: foldl_conv_fold max.commute)
    also have "\<dots> = Max (set (b # bs))" by (rule Max.set_eq_fold[symmetric])
    finally have "table_bottom words = Max (set ?bs)" using Cons by (simp add: table_bottom_def)
    moreover have "\<exists>w\<in>set words. w_bottom w < 650"
    proof -
      have "b \<in> set ?bs" using Cons by simp
      then show ?thesis unfolding s by auto
    qed
    ultimately show ?thesis unfolding s by simp
  qed
qed

subsection \<open>Row spans\<close>

text \<open>
  Claim C1, amended. Whenever row boundaries are returned, the spans form a
  chain, whatever the order of the anchor words on the page: the first span
  starts 30 above the top of the first anchor (the anchor of the lowest slot),
  each span ends where the next one starts, and the last span ends at the table
  bottom, which is the largest bottom below 650, or 600 when no word has its
  bottom below 650. When, in addition, the tops of the deduplicated anchors do
  not decrease with the slot number and the last span does not start below the
  table bottom, the half-open spans are pairwise disjoint and their union is
  the interval from 30 above the first anchor to the table bottom.
\<close>

theorem row_spans_chain:
  assumes "row_boundaries words = Inr bs"
  shows "\<exists>st. stunden_dedup words = Inr st \<and> st \<noteq> [] \<and> length bs = length st
           \<and> y_start (hd bs) = snd (hd st) - 30
           \<and> y_end (last bs) = table_bottom words
           \<and> (\<forall>i. Suc i < length bs \<longrightarrow> y_end (bs ! i) = y_start (bs ! Suc i))
           \<and> (sorted (map snd st) \<and> y_start (last bs) \<le> table_bottom words
                \<longrightarrow> spans_partition bs (snd (hd st) - 30) (table_bottom words))
           \<and> table_bottom words =
               (if \<exists>w\<in>set words. w_bottom w < 650
                then Max {b. \<exists>w\<in>set words. b = w_bottom w \<and> b < 650} else 600)"
proof -
  let ?tb = "table_bottom words"
  from assms obtain st where st: "stunden_dedup words = Inr st" and b: "bs = boundaries st ?tb"
    by (auto simp: row_boundaries_def split: sum.splits)
  have "slots words \<noteq> []" by (rule stunden_dedup_char(2)[OF st])
  then have ne: "st \<noteq> []" using stunden_dedup_char(1)[OF st] by simp
  have len: "length bs = length st" by (simp add: b boundaries_def)
  then have bne: "bs \<noteq> []" using ne by auto
  have h: "y_start (hd bs) = snd (hd st) - 30"
    using ne bne by (simp add: hd_conv_nth b y_start_boundaries)
  have l: "y_end (last bs) = ?tb"
    using ne bne len by (simp add: last_conv_nth b y_end_boundaries)
  have link: "\<forall>i. Suc i < length bs \<longrightarrow> y_end (bs ! i) = y_start (bs ! Suc i)"
    using len by (simp add: b boundaries_link)
  have part: "spans_partition bs (snd (hd st) - 30) ?tb"
    if "sorted (map snd st) \<and> y_start (last bs) \<le> ?tb"
  proof -
    have "\<forall>i<length bs. y_start (bs ! i) \<le> y_end (bs ! i)"
      using that len boundaries_ordered[of st ?tb] by (simp add: b)
    from chain_partition[OF bne link this] show ?thesis by (simp add: h l)
  qed
  from st ne len h l link part table_bottom_Max show ?thesis by blast
qed

lemma boundaries_words_inverted:
  "row_boundaries words_inverted = Inr [(1, 270, 200), (2, 200, 310)]"
  by code_simp

theorem row_spans_counterexample:
  "row_boundaries words_inverted = Inr [(1, 270, 200), (2, 200, 310)]
   \<and> table_bottom words_inverted = 310
   \<and> \<not> spans_partition [(1, 270, 200), (2, 200, 310)] (300 - 30) 310"
proof -
  have "\<not> spans_partition [(1, 270, 200), (2, 200, 310)] (300 - 30) 310"
  proof
    assume "spans_partition [(1, 270, 200), (2, 200, 310)] (300 - 30) 310"
    then have "(\<Union>b\<in>set [(1, 270, 200), (2, 200, 310 :: rat)]. span_set b) = {270 ..< 310}"
      by (simp add: spans_partition_def)
    moreover have "(250 :: rat) \<in> (\<Union>b\<in>set [(1, 270, 200), (2, 200, 310 :: rat)]. span_set b)"
      by (simp add: span_set_def y_start_def y_end_def)
    ultimately have "(250 :: rat) \<in> {270 ..< 310}" by simp
    then show False by simp
  qed
  moreover have "table_bottom words_inverted = 310" by code_simp
  ultimately show ?thesis using boundaries_words_inverted by simp
qed

lemma boundaries_words_531:
  "row_boundaries words_531 = Inr [(1, 70, 200), (3, 200, 400), (5, 400, 510)]"
  by code_simp

theorem row_spans_chain_witness:
  "spans_partition [(1, 70, 200), (3, 200, 400), (5, 400, 510)] 70 510"
proof -
  have st: "stunden_dedup words_531 = Inr [(1, 100), (3, 300), (5, 500)]" by code_simp
  have tb: "table_bottom words_531 = 510" by code_simp
  from row_spans_chain[OF boundaries_words_531] st tb
  have "sorted (map snd [(1 :: int, 100 :: rat), (3, 300), (5, 500)])
          \<and> y_start (last [(1 :: int, 70 :: rat, 200 :: rat), (3, 200, 400), (5, 400, 510)]) \<le> 510
        \<longrightarrow> spans_partition [(1, 70, 200), (3, 200, 400), (5, 400, 510)] (snd (hd [(1 :: int, 100 :: rat), (3, 300), (5, 500)]) - 30) 510"
    by auto
  then show ?thesis by (simp add: y_start_def)
qed

section \<open>Which duplicate is kept\<close>








section \<open>Noise filtering\<close>

lemma space_isspace: "py_isspace (CHR '' '')"
  by (simp add: py_isspace_def cp_def)

lemma split_acc_nospace:
  "\<forall>c\<in>set t. \<not> py_isspace c \<Longrightarrow> split_acc cur (t @ rest) = split_acc (cur @ t) rest"
  by (induction t arbitrary: cur) simp_all

lemma split_acc_join:
  "\<forall>t\<in>set ts. \<forall>c\<in>set t. \<not> py_isspace c \<Longrightarrow>
     split_acc [] (py_join '' '' ts) = filter (\<lambda>t. t \<noteq> []) ts"
proof (induction "'' ''" ts rule: py_join.induct)
  case 1
  then show ?case by simp
next
  case (2 x)
  then have "split_acc [] (x @ []) = split_acc ([] @ x) []" by (intro split_acc_nospace) simp
  then show ?case by simp
next
  case (3 x y ys)
  then have x: "\<forall>c\<in>set x. \<not> py_isspace c" by simp
  have "split_acc [] (x @ '' '' @ py_join '' '' (y # ys))
          = split_acc ([] @ x) ('' '' @ py_join '' '' (y # ys))"
    using x by (rule split_acc_nospace)
  also have "\<dots> = (if x = [] then split_acc [] (py_join '' '' (y # ys))
                     else x # split_acc [] (py_join '' '' (y # ys)))"
    by (simp add: space_isspace)
  also have "split_acc [] (py_join '' '' (y # ys)) = filter (\<lambda>t. t \<noteq> []) (y # ys)"
    using 3 by simp
  finally show ?case by simp
qed

lemma py_split_join:
  "\<forall>t\<in>set ts. \<forall>c\<in>set t. \<not> py_isspace c \<Longrightarrow>
     py_split (py_join '' '' ts) = filter (\<lambda>t. t \<noteq> []) ts"
  by (simp add: py_split_def split_acc_join)

lemma rows_loop_nth:
  "rows_loop words bs = Inr rows \<Longrightarrow>
     length rows = length bs \<and> (\<forall>i<length bs. row_of words (bs ! i) = Inr (rows ! i))"
proof (induction bs arbitrary: rows)
  case Nil
  then show ?case by simp
next
  case (Cons b bs)
  from Cons.prems obtain r0 rs where r0: "row_of words b = Inr r0"
    and rs: "rows_loop words bs = Inr rs" and rows: "rows = r0 # rs"
    by (auto split: sum.splits)
  from Cons.IH[OF rs] have l: "length rs = length bs"
    and n: "\<forall>i<length bs. row_of words (bs ! i) = Inr (rs ! i)" by simp_all
  have "row_of words ((b # bs) ! i) = Inr (rows ! i)" if "i < length (b # bs)" for i
    using that r0 n rows by (cases i) simp_all
  with l rows show ?case by simp
qed

lemma words_in_col_content:
  "filter (\<lambda>t. t \<notin> HEADER_NOISE) (words_in_col words 74 359 (y_start b) (y_end b))
     = content_words words b"
  by (simp add: words_in_col_def content_words_def in_span_def filter_map comp_def conj_ac)

lemma words_in_col_instructor:
  "words_in_col words 459 549 (y_start b) (y_end b) = instructor_words words b"
  by (simp add: words_in_col_def instructor_words_def in_span_def conj_ac)

lemma row_of_char:
  assumes "row_of words b = Inr r"
  shows "stunde r = fst b"
    and "inhalt r = py_join '' '' (content_words words b)"
    and "first_dozent (instructor_words words b) = Inr (dozent_nachname r, dozent_vorname r)"
proof -
  obtain nr y0 y1 where b: "b = (nr, y0, y1)" by (cases b)
  have y: "y0 = y_start b" "y1 = y_end b" by (simp_all add: b y_start_def y_end_def)
  obtain l f where d: "first_dozent (words_in_col words 459 549 y0 y1) = Inr (l, f)"
    using first_dozent_total by (metis surj_pair)
  from assms d have r: "r = \<lparr>stunde = nr,
      inhalt = py_join '' '' (filter (\<lambda>t. t \<notin> HEADER_NOISE) (words_in_col words 74 359 y0 y1)),
      dozent_vorname = f, dozent_nachname = l\<rparr>"
    by (simp add: row_of_def b Let_def COL_LEHRINHALTE_def COL_DOZENT_def)
  show "stunde r = fst b" by (simp add: r b)
  show "inhalt r = py_join '' '' (content_words words b)"
    using words_in_col_content[of words b] by (simp add: r y)
  show "first_dozent (instructor_words words b) = Inr (dozent_nachname r, dozent_vorname r)"
    using words_in_col_instructor[of words b] d by (simp add: r y)
qed

lemma content_words_no_noise:
  assumes "\<forall>w\<in>set words. \<forall>c\<in>set (w_text w). \<not> py_isspace c"
  shows "set (py_split (py_join '' '' (content_words words b))) \<inter> HEADER_NOISE = {}"
proof -
  let ?ts = "content_words words b"
  have "set ?ts \<subseteq> w_text ` set words" by (auto simp: content_words_def)
  with assms have "\<forall>t\<in>set ?ts. \<forall>c\<in>set t. \<not> py_isspace c" by auto
  then have "py_split (py_join '' '' ?ts) = filter (\<lambda>t. t \<noteq> []) ?ts" by (rule py_split_join)
  moreover have "set ?ts \<inter> HEADER_NOISE = {}" by (auto simp: content_words_def)
  ultimately show ?thesis by auto
qed

text \<open>
  Claim C4, amended. Whenever rows are returned there is one row for each span
  of the row boundary locator, in the same order, and for each of them: the
  content text is the join, with single spaces, of the words of the content
  column inside that span with the words of the denylist dropped, so that, the
  words of a page holding no whitespace, no word of the content text is an entry
  of the denylist. The instructor column is not filtered by the denylist: the
  names of the row are what the name splitter returns for all the words of the
  instructor column inside the span, and the name splitter only deletes the
  label "Dozent".
\<close>

theorem no_noise_in_inhalt:
  assumes "parse_rows_from_page words = Inr rows"
  shows "\<exists>bs. row_boundaries words = Inr bs \<and> length rows = length bs
           \<and> (\<forall>i<length rows.
                 stunde (rows ! i) = fst (bs ! i)
               \<and> inhalt (rows ! i) = py_join '' '' (content_words words (bs ! i))
               \<and> first_dozent (instructor_words words (bs ! i))
                   = Inr (dozent_nachname (rows ! i), dozent_vorname (rows ! i))
               \<and> ((\<forall>w\<in>set words. \<forall>c\<in>set (w_text w). \<not> py_isspace c)
                    \<longrightarrow> set (py_split (inhalt (rows ! i))) \<inter> HEADER_NOISE = {}))"
proof -
  from assms obtain bs where rb: "row_boundaries words = Inr bs"
    and rl: "rows_loop words bs = Inr rows"
    by (auto simp: parse_rows_from_page_def split: sum.splits)
  from rows_loop_nth[OF rl] have l: "length rows = length bs"
    and n: "\<forall>i<length bs. row_of words (bs ! i) = Inr (rows ! i)" by simp_all
  have "stunde (rows ! i) = fst (bs ! i)
      \<and> inhalt (rows ! i) = py_join '' '' (content_words words (bs ! i))
      \<and> first_dozent (instructor_words words (bs ! i))
          = Inr (dozent_nachname (rows ! i), dozent_vorname (rows ! i))
      \<and> ((\<forall>w\<in>set words. \<forall>c\<in>set (w_text w). \<not> py_isspace c)
           \<longrightarrow> set (py_split (inhalt (rows ! i))) \<inter> HEADER_NOISE = {})"
    if "i < length rows" for i
  proof -
    from that l n have ro: "row_of words (bs ! i) = Inr (rows ! i)" by simp
    note c = row_of_char[OF ro]
    have "set (py_split (inhalt (rows ! i))) \<inter> HEADER_NOISE = {}"
      if "\<forall>w\<in>set words. \<forall>c\<in>set (w_text w). \<not> py_isspace c"
      unfolding c(2) using that by (rule content_words_no_noise)
    with c show ?thesis by blast
  qed
  with rb l show ?thesis by blast
qed

lemma parse_words_noise_inhalt:
  "parse_rows_from_page words_noise_inhalt =
     Inr [\<lparr>stunde = 1, inhalt = ''Einfuehrung'', dozent_vorname = [], dozent_nachname = []\<rparr>]"
  by code_simp

lemma boundaries_words_noise_inhalt:
  "row_boundaries words_noise_inhalt = Inr [(1, 70, 110)]"
  by code_simp

theorem no_noise_in_inhalt_witness:
  "py_join '' '' (content_words words_noise_inhalt (1, 70, 110)) = ''Einfuehrung''
   \<and> set (py_split ''Einfuehrung'') \<inter> HEADER_NOISE = {}"
proof -
  have ns: "\<forall>w\<in>set words_noise_inhalt. \<forall>c\<in>set (w_text w). \<not> py_isspace c"
  proof -
    have "list_all (\<lambda>w. list_all (\<lambda>c. \<not> py_isspace c) (w_text w)) words_noise_inhalt"
      by code_simp
    then show ?thesis unfolding list_all_iff .
  qed
  from no_noise_in_inhalt[OF parse_words_noise_inhalt] boundaries_words_noise_inhalt
  have "\<forall>i<length [\<lparr>stunde = 1, inhalt = ''Einfuehrung'', dozent_vorname = [], dozent_nachname = []\<rparr>].
          inhalt ([\<lparr>stunde = 1, inhalt = ''Einfuehrung'', dozent_vorname = [], dozent_nachname = []\<rparr>] ! i)
            = py_join '' '' (content_words words_noise_inhalt ([(1, 70, 110)] ! i))
          \<and> ((\<forall>w\<in>set words_noise_inhalt. \<forall>c\<in>set (w_text w). \<not> py_isspace c)
               \<longrightarrow> set (py_split (inhalt
                     ([\<lparr>stunde = 1, inhalt = ''Einfuehrung'', dozent_vorname = [], dozent_nachname = []\<rparr>] ! i)))
                   \<inter> HEADER_NOISE = {})"
    by auto
  moreover have "0 < length [\<lparr>stunde = 1, inhalt = ''Einfuehrung'', dozent_vorname = [], dozent_nachname = []\<rparr>]"
    by simp
  ultimately have c: "inhalt ([\<lparr>stunde = 1, inhalt = ''Einfuehrung'', dozent_vorname = [], dozent_nachname = []\<rparr>] ! 0)
            = py_join '' '' (content_words words_noise_inhalt ([(1, 70, 110)] ! 0))
          \<and> ((\<forall>w\<in>set words_noise_inhalt. \<forall>c\<in>set (w_text w). \<not> py_isspace c)
               \<longrightarrow> set (py_split (inhalt
                     ([\<lparr>stunde = 1, inhalt = ''Einfuehrung'', dozent_vorname = [], dozent_nachname = []\<rparr>] ! 0)))
                   \<inter> HEADER_NOISE = {})"
    by blast
  from c have "inhalt ([\<lparr>stunde = 1, inhalt = ''Einfuehrung'', dozent_vorname = [], dozent_nachname = []\<rparr>] ! 0)
            = py_join '' '' (content_words words_noise_inhalt ([(1, 70, 110)] ! 0))"
    by (rule conjunct1)
  then have a: "py_join '' '' (content_words words_noise_inhalt (1, 70, 110)) = ''Einfuehrung''"
    by simp
  from c ns have "set (py_split (inhalt
        ([\<lparr>stunde = 1, inhalt = ''Einfuehrung'', dozent_vorname = [], dozent_nachname = []\<rparr>] ! 0)))
      \<inter> HEADER_NOISE = {}"
    by blast
  then have b: "set (py_split ''Einfuehrung'') \<inter> HEADER_NOISE = {}" by simp
  from a b show ?thesis by (rule conjI)
qed

theorem noise_in_dozent_counterexample:
  "parse_rows_from_page words_noise_dozent =
     Inr [\<lparr>stunde = 1, inhalt = [], dozent_vorname = [], dozent_nachname = ''08:30''\<rparr>]
   \<and> ''08:30'' \<in> HEADER_NOISE"
proof -
  have "parse_rows_from_page words_noise_dozent =
     Inr [\<lparr>stunde = 1, inhalt = [], dozent_vorname = [], dozent_nachname = ''08:30''\<rparr>]"
    by code_simp
  moreover have "''08:30'' \<in> HEADER_NOISE" by (simp add: HEADER_NOISE_def)
  ultimately show ?thesis by simp
qed

section \<open>Properties of the label pattern\<close>

lemma isword_D: "py_isword (CHR ''D'')" and isword_t: "py_isword (CHR ''t'')"
  and not_isword_space: "\<not> py_isword (CHR '' '')"
  by (simp_all add: py_isword_def is_ascii_digit_def cp_def)

lemma take_length_eq: "take (length l) post = l \<longleftrightarrow> (\<exists>r. post = l @ r)"
  by (metis append_eq_conv_conj append_take_drop_id)

lemma match_at_dozent_hit:
  assumes "\<not> word_before pre" "\<not> word_after r"
  shows "match_at DOZENT_RE (pre, ''Dozent'' @ r) = Some ((pre @ ''Dozent'', r), Map.empty)"
  using assms
  by (simp add: match_at_def DOZENT_RE_def at_word_boundary_def word_before_def word_after_def
      isword_D isword_t)

lemma match_at_dozent_miss:
  assumes "\<not> label_at pre post"
  shows "match_at DOZENT_RE (pre, post) = None"
proof (cases "\<exists>r. post = ''Dozent'' @ r")
  case True
  then obtain r where r: "post = ''Dozent'' @ r" by blast
  with assms have "word_before pre \<or> word_after r" by (auto simp: label_at_def)
  then show ?thesis
    by (auto simp: r match_at_def DOZENT_RE_def at_word_boundary_def word_before_def word_after_def
        isword_D isword_t)
next
  case False
  then have "take (length ''Dozent'') post \<noteq> ''Dozent''" by (simp only: take_length_eq) simp
  then show ?thesis by (simp add: match_at_def DOZENT_RE_def)
qed

lemma sub_from_hit:
  assumes "\<not> word_before pre" "\<not> word_after r"
  shows "sub_from DOZENT_RE pre (''Dozent'' @ r) = sub_from DOZENT_RE (pre @ ''Dozent'') r"
  using match_at_dozent_hit[OF assms] by simp

lemma sub_from_miss:
  assumes "\<not> label_at pre (c # cs)"
  shows "sub_from DOZENT_RE pre (c # cs) = c # sub_from DOZENT_RE (pre @ [c]) cs"
  using match_at_dozent_miss[OF assms] by simp

lemma word_before_snoc: "word_before (pre @ [c]) = py_isword c"
  by (simp add: word_before_def)

lemma word_before_Dozent: "word_before (pre @ ''Dozent'')"
  by (simp add: word_before_def isword_t)

lemma sub_from_context:
  "word_before pre = word_before pre' \<Longrightarrow> sub_from DOZENT_RE pre s = sub_from DOZENT_RE pre' s"
proof (induction s arbitrary: pre pre' rule: length_induct)
  case (1 s)
  show ?case
  proof (cases "label_at pre s")
    case True
    then obtain r where r: "s = ''Dozent'' @ r" and h: "\<not> word_before pre" "\<not> word_after r"
      by (auto simp: label_at_def)
    from h "1.prems" have h': "\<not> word_before pre'" by simp
    have "length r < length s" by (simp add: r)
    with 1 have "sub_from DOZENT_RE (pre @ ''Dozent'') r = sub_from DOZENT_RE (pre' @ ''Dozent'') r"
      using word_before_Dozent by blast
    then show ?thesis
      unfolding r sub_from_hit[OF h] sub_from_hit[OF h' h(2)] .
  next
    case False
    then have f': "\<not> label_at pre' s" using "1.prems" by (simp add: label_at_def)
    show ?thesis
    proof (cases s)
      case Nil
      then show ?thesis by simp
    next
      case (Cons c cs)
      have "sub_from DOZENT_RE (pre @ [c]) cs = sub_from DOZENT_RE (pre' @ [c]) cs"
        using 1 Cons by (simp add: word_before_snoc)
      then show ?thesis
        using False f' unfolding Cons by (simp add: sub_from_miss del: sub_from.simps)
    qed
  qed
qed

lemma word_after_append_space:
  "word_after (u @ CHR '' '' # rest) = word_after u"
  by (cases u) (simp_all add: word_after_def not_isword_space)

lemma label_at_append_space:
  "label_at pre (t @ CHR '' '' # rest) \<longleftrightarrow> label_at pre t"
proof
  assume "label_at pre (t @ CHR '' '' # rest)"
  then obtain r where wb: "\<not> word_before pre" and r: "t @ CHR '' '' # rest = ''Dozent'' @ r"
    and wa: "\<not> word_after r" by (auto simp: label_at_def)
  from r[unfolded append_eq_append_conv2]
  obtain us where "(t = ''Dozent'' @ us \<and> us @ CHR '' '' # rest = r)
      \<or> (t @ us = ''Dozent'' \<and> CHR '' '' # rest = us @ r)"
    by blast
  then show "label_at pre t"
  proof
    assume a: "t = ''Dozent'' @ us \<and> us @ CHR '' '' # rest = r"
    with wa have "\<not> word_after us" by (auto simp: word_after_append_space)
    with a wb show ?thesis by (auto simp: label_at_def)
  next
    assume a: "t @ us = ''Dozent'' \<and> CHR '' '' # rest = us @ r"
    show ?thesis
    proof (cases us)
      case Nil
      with a have "t = ''Dozent'' @ []" by simp
      moreover have "\<not> word_after []" by (simp add: word_after_def)
      ultimately show ?thesis using wb unfolding label_at_def by blast
    next
      case (Cons u us')
      with a have "u = CHR '' ''" by simp
      with Cons have "CHR '' '' \<in> set us" by simp
      then have m: "CHR '' '' \<in> set (t @ us)" by simp
      from a have e: "t @ us = ''Dozent''" by (rule conjunct1)
      from m have "CHR '' '' \<in> set ''Dozent''" by (simp only: e)
      then show ?thesis by simp
    qed
  qed
next
  assume "label_at pre t"
  then obtain r where wb: "\<not> word_before pre" and r: "t = ''Dozent'' @ r"
    and wa: "\<not> word_after r" by (auto simp: label_at_def)
  have "t @ CHR '' '' # rest = ''Dozent'' @ (r @ CHR '' '' # rest)" by (simp add: r)
  moreover have "\<not> word_after (r @ CHR '' '' # rest)" using wa by (simp add: word_after_append_space)
  ultimately show "label_at pre (t @ CHR '' '' # rest)" using wb unfolding label_at_def by blast
qed

lemma sub_from_split_space:
  "sub_from DOZENT_RE pre (t @ CHR '' '' # rest)
     = sub_from DOZENT_RE pre t @ CHR '' '' # sub_from DOZENT_RE [] rest"
proof (induction t arbitrary: pre rule: length_induct)
  case (1 t)
  show ?case
  proof (cases "label_at pre t")
    case True
    then obtain r where r: "t = ''Dozent'' @ r" and h: "\<not> word_before pre" "\<not> word_after r"
      by (auto simp: label_at_def)
    have h2: "\<not> word_after (r @ CHR '' '' # rest)" using h by (simp add: word_after_append_space)
    have "length r < length t" by (simp add: r)
    with 1 have IH: "sub_from DOZENT_RE (pre @ ''Dozent'') (r @ CHR '' '' # rest)
        = sub_from DOZENT_RE (pre @ ''Dozent'') r @ CHR '' '' # sub_from DOZENT_RE [] rest"
      by blast
    have "sub_from DOZENT_RE pre (t @ CHR '' '' # rest)
            = sub_from DOZENT_RE pre (''Dozent'' @ (r @ CHR '' '' # rest))"
      by (simp add: r)
    also have "\<dots> = sub_from DOZENT_RE (pre @ ''Dozent'') (r @ CHR '' '' # rest)"
      by (rule sub_from_hit[OF h(1) h2])
    also note IH
    also have "sub_from DOZENT_RE (pre @ ''Dozent'') r = sub_from DOZENT_RE pre t"
      unfolding r by (rule sub_from_hit[OF h, symmetric])
    finally show ?thesis .
  next
    case False
    then have f: "\<not> label_at pre (t @ CHR '' '' # rest)" by (simp add: label_at_append_space)
    show ?thesis
    proof (cases t)
      case Nil
      have "sub_from DOZENT_RE (pre @ '' '') rest = sub_from DOZENT_RE [] rest"
        by (rule sub_from_context) (simp add: word_before_def not_isword_space)
      moreover have "sub_from DOZENT_RE pre (CHR '' '' # rest)
          = CHR '' '' # sub_from DOZENT_RE (pre @ '' '') rest"
        using f Nil by (simp add: sub_from_miss del: sub_from.simps)
      ultimately show ?thesis using Nil by simp
    next
      case (Cons c cs)
      have a: "sub_from DOZENT_RE pre (t @ CHR '' '' # rest)
              = c # sub_from DOZENT_RE (pre @ [c]) (cs @ CHR '' '' # rest)"
        using f Cons by (simp add: sub_from_miss del: sub_from.simps)
      have b: "sub_from DOZENT_RE (pre @ [c]) (cs @ CHR '' '' # rest)
              = sub_from DOZENT_RE (pre @ [c]) cs @ CHR '' '' # sub_from DOZENT_RE [] rest"
        using 1 Cons by simp
      have c: "sub_from DOZENT_RE pre t = c # sub_from DOZENT_RE (pre @ [c]) cs"
        using False Cons by (simp add: sub_from_miss del: sub_from.simps)
      show ?thesis unfolding a b c by simp
    qed
  qed
qed

lemma re_sub_join:
  "re_sub_empty DOZENT_RE (py_join '' '' ws) = py_join '' '' (map (re_sub_empty DOZENT_RE) ws)"
proof (induction "'' ''" ws rule: py_join.induct)
  case 1
  then show ?case by (simp add: re_sub_empty_def)
next
  case (2 x)
  then show ?case by simp
next
  case (3 x y ys)
  have "re_sub_empty DOZENT_RE (py_join '' '' (x # y # ys))
          = sub_from DOZENT_RE [] (x @ CHR '' '' # py_join '' '' (y # ys))"
    by (simp add: re_sub_empty_def)
  also have "\<dots> = sub_from DOZENT_RE [] x @ CHR '' '' # sub_from DOZENT_RE [] (py_join '' '' (y # ys))"
    by (rule sub_from_split_space)
  also have "sub_from DOZENT_RE [] (py_join '' '' (y # ys))
               = py_join '' '' (map (re_sub_empty DOZENT_RE) (y # ys))"
    using 3 by (simp add: re_sub_empty_def)
  finally show ?case by (simp add: re_sub_empty_def)
qed

lemma re_sub_Dozent: "re_sub_empty DOZENT_RE ''Dozent'' = []"
proof -
  have "sub_from DOZENT_RE [] (''Dozent'' @ []) = sub_from DOZENT_RE ([] @ ''Dozent'') []"
    by (rule sub_from_hit) (simp_all add: word_before_def word_after_def)
  then show ?thesis by (simp add: re_sub_empty_def del: sub_from.simps(2))
qed

lemma sub_from_no_label:
  "\<forall>u v. t \<noteq> u @ ''Dozent'' @ v \<Longrightarrow> sub_from DOZENT_RE pre t = t"
proof (induction t arbitrary: pre)
  case Nil
  then show ?case by simp
next
  case (Cons c cs)
  have "\<not> label_at pre (c # cs)"
  proof
    assume "label_at pre (c # cs)"
    then obtain r where "c # cs = [] @ ''Dozent'' @ r" by (auto simp: label_at_def)
    with Cons.prems show False by blast
  qed
  moreover have "\<forall>u v. cs \<noteq> u @ ''Dozent'' @ v"
  proof (intro allI notI)
    fix u v assume "cs = u @ ''Dozent'' @ v"
    then have "c # cs = (c # u) @ ''Dozent'' @ v" by simp
    with Cons.prems show False by blast
  qed
  ultimately show ?case using Cons.IH by (simp add: sub_from_miss del: sub_from.simps)
qed

section \<open>Properties of the name splitter\<close>
















subsection \<open>How the name is split\<close>



lemma join_empties: "py_join '' '' (replicate n []) = replicate (n - 1) (CHR '' '')"
proof (induction n)
  case 0
  then show ?case by simp
next
  case (Suc n)
  then show ?case by (cases n) simp_all
qed

lemma strip_spaces:
  assumes "\<forall>c\<in>set s. py_isspace c"
  shows "py_strip s = []"
proof -
  from assms have e: "dropWhile py_isspace s = []" by (simp only: dropWhile_eq_Nil_conv)
  show ?thesis unfolding py_strip_def e by simp
qed

lemma dozent_text_tokens:
  "dozent_text ws = py_strip (py_join '' '' (map (re_sub_empty DOZENT_RE) ws))"
  by (simp add: dozent_text_def re_sub_join)

lemma dozent_text_all_labels:
  assumes "\<forall>t\<in>set ws. t = ''Dozent''"
  shows "dozent_text ws = []"
proof -
  have "map (re_sub_empty DOZENT_RE) ws = replicate (length ws) []"
    using assms by (intro replicate_eqI) (auto simp: re_sub_Dozent)
  then have "py_join '' '' (map (re_sub_empty DOZENT_RE) ws) = replicate (length ws - 1) (CHR '' '')"
    by (simp add: join_empties)
  then show ?thesis
    unfolding dozent_text_tokens by (simp add: strip_spaces py_isspace_def cp_def)
qed

lemma first_dozent_empty_text: "dozent_text ws = [] \<Longrightarrow> first_dozent ws = Inr ([], [])"
  by (simp add: first_dozent_def Let_def dozent_text_def[symmetric])

subsection \<open>The name splitter never fails\<close>

text \<open>
  Claim C6, amended. For every list of instructor words the name splitter
  returns a pair. The label is deleted word by word: the text is the trimmed
  join of the words after every "Dozent" standing between word boundaries has
  been deleted from each; a word equal to "Dozent" becomes empty and a word
  that does not contain "Dozent" is kept as it is. When the text is empty, and
  so when every word is the label, the pair of empty strings is returned.
\<close>

theorem name_split_never_fails:
  "(\<exists>l f. first_dozent ws = Inr (l, f))
   \<and> dozent_text ws = py_strip (py_join '' '' (map (re_sub_empty DOZENT_RE) ws))
   \<and> re_sub_empty DOZENT_RE ''Dozent'' = []
   \<and> (\<forall>t. (\<forall>u v. t \<noteq> u @ ''Dozent'' @ v) \<longrightarrow> re_sub_empty DOZENT_RE t = t)
   \<and> (dozent_text ws = [] \<longrightarrow> first_dozent ws = Inr ([], []))
   \<and> ((\<forall>t\<in>set ws. t = ''Dozent'') \<longrightarrow> first_dozent ws = Inr ([], []))"
proof -
  have 1: "\<exists>l f. first_dozent ws = Inr (l, f)" using first_dozent_total[of ws] by auto
  have 4: "\<forall>t. (\<forall>u v. t \<noteq> u @ ''Dozent'' @ v) \<longrightarrow> re_sub_empty DOZENT_RE t = t"
    by (simp add: re_sub_empty_def sub_from_no_label)
  have 6: "(\<forall>t\<in>set ws. t = ''Dozent'') \<longrightarrow> first_dozent ws = Inr ([], [])"
    using dozent_text_all_labels first_dozent_empty_text by blast
  from 1 4 6 dozent_text_tokens re_sub_Dozent first_dozent_empty_text show ?thesis by blast
qed

theorem name_split_never_fails_witness:
  "first_dozent [''Dozent'', ''Dozent''] = Inr ([], []) \<and> first_dozent [] = Inr ([], [])"
proof -
  have a: "\<forall>t\<in>set [''Dozent'', ''Dozent'']. t = ''Dozent''" by simp
  have b: "\<forall>t\<in>set ([] :: string list). t = ''Dozent''" by simp
  from name_split_never_fails[of "[''Dozent'', ''Dozent'']"] a
       name_split_never_fails[of "[]"] b
  show ?thesis by blast
qed

theorem label_removal_counterexample:
  "spec_label_removed [''Dozent,'', ''Anna''] = ''Dozent, Anna''
   \<and> dozent_text [''Dozent,'', ''Anna''] = '', Anna''
   \<and> first_dozent [''Dozent,'', ''Anna''] = Inr ([], ''Anna'')"
proof -
  have "spec_label_removed [''Dozent,'', ''Anna''] = ''Dozent, Anna''" by code_simp
  moreover have "dozent_text [''Dozent,'', ''Anna''] = '', Anna''" by code_simp
  moreover have "first_dozent [''Dozent,'', ''Anna''] = Inr ([], ''Anna'')" by code_simp
  ultimately show ?thesis by simp
qed

section \<open>The matcher finds a match exactly when one exists\<close>

text \<open>
  The matcher \<^const>\<open>ms\<close> lists, in the order of the backtracking search, the
  positions at which a pattern can end; they are exactly the positions given
  by \<^const>\<open>rx_match\<close>. So a search fails exactly when the pattern occurs nowhere
  in the text.\<close>

lemma run_take:
  "k \<le> length (takeWhile P xs) \<Longrightarrow> list_all P (take k xs)"
proof -
  assume k: "k \<le> length (takeWhile P xs)"
  have "take k (takeWhile P xs @ dropWhile P xs) = take k (takeWhile P xs)"
    using k by (simp del: takeWhile_dropWhile_id)
  then have "take k xs = take k (takeWhile P xs)" by (metis takeWhile_dropWhile_id)
  then have "set (take k xs) \<subseteq> set (takeWhile P xs)" by (simp add: set_take_subset)
  then show ?thesis by (auto simp: list_all_iff dest: set_takeWhileD)
qed

lemma run_length:
  "list_all P w \<Longrightarrow> length w \<le> length (takeWhile P (w @ r))"
  by (induction w) simp_all

lemma run_iff:
  "(\<exists>w. list_all P w \<and> Q (length w) \<and> post = w @ post' \<and> pre' = pre @ w)
     \<longleftrightarrow> (\<exists>k. k \<le> length (takeWhile P post) \<and> Q k \<and> pre' = pre @ take k post \<and> post' = drop k post)"
proof
  assume "\<exists>w. list_all P w \<and> Q (length w) \<and> post = w @ post' \<and> pre' = pre @ w"
  then obtain w where w: "list_all P w" "Q (length w)" "post = w @ post'" "pre' = pre @ w" by blast
  have "length w \<le> length (takeWhile P post)" using w(1,3) by (simp add: run_length)
  moreover have "take (length w) post = w" "drop (length w) post = post'" using w(3) by simp_all
  ultimately show "\<exists>k. k \<le> length (takeWhile P post) \<and> Q k \<and> pre' = pre @ take k post \<and> post' = drop k post"
    using w(2,4) by (intro exI[of _ "length w"]) simp
next
  assume "\<exists>k. k \<le> length (takeWhile P post) \<and> Q k \<and> pre' = pre @ take k post \<and> post' = drop k post"
  then obtain k where k: "k \<le> length (takeWhile P post)" "Q k" "pre' = pre @ take k post"
    "post' = drop k post" by blast
  have "k \<le> length post" using k(1) length_takeWhile_le[of P post] by simp
  then have "length (take k post) = k" by simp
  with k run_take[OF k(1)] show "\<exists>w. list_all P w \<and> Q (length w) \<and> post = w @ post' \<and> pre' = pre @ w"
    by (intro exI[of _ "take k post"]) simp
qed

lemma ms_run_set:
  "fst ` set (map (\<lambda>k. ((pre @ take k post, drop k post), g)) ks)
     = {(pre', post'). \<exists>k\<in>set ks. pre' = pre @ take k post \<and> post' = drop k post}"
  by (auto simp: image_iff)

lemma ms_complete: "fst ` set (ms r (p, g)) = {q. rx_match r p q}"
proof (induction r arbitrary: p g)
  case (Lit l)
  obtain pre post where p: "p = (pre, post)" by (cases p)
  show ?case
  proof (cases "take (length l) post = l")
    case True
    then have "post = l @ drop (length l) post" by (metis append_take_drop_id)
    then show ?thesis using True by (auto simp: p)
  next
    case False
    then have "\<And>r. post \<noteq> l @ r" by auto
    then show ?thesis using False by (auto simp: p)
  qed
next
  case (Chr P)
  obtain pre post where p: "p = (pre, post)" by (cases p)
  show ?case by (cases post) (auto simp: p)
next
  case (StarG P)
  obtain pre post where p: "p = (pre, post)" by (cases p)
  have K: "set (rev [0..<Suc (length (takeWhile P post))]) = {k. k \<le> length (takeWhile P post)}"
    by auto
  have A: "fst ` set (ms (StarG P) (p, g))
      = {(pre', post'). \<exists>k\<in>set (rev [0..<Suc (length (takeWhile P post))]).
           pre' = pre @ take k post \<and> post' = drop k post}"
    unfolding p ms.simps by (rule ms_run_set)
  have "{q. rx_match (StarG P) p q}
      = {(pre', post'). \<exists>w. list_all P w \<and> True \<and> post = w @ post' \<and> pre' = pre @ w}"
    by (auto simp: p)
  also have "\<dots> = {(pre', post'). \<exists>k. k \<le> length (takeWhile P post) \<and> True
      \<and> pre' = pre @ take k post \<and> post' = drop k post}"
    by (simp only: run_iff[where Q = "\<lambda>_. True"])
  also have "\<dots> = fst ` set (ms (StarG P) (p, g))"
    unfolding A K by blast
  finally show ?case by simp
next
  case (PlusG P)
  obtain pre post where p: "p = (pre, post)" by (cases p)
  have K: "set (rev [1..<Suc (length (takeWhile P post))]) = {k. 0 < k \<and> k \<le> length (takeWhile P post)}"
    by auto
  have A: "fst ` set (ms (PlusG P) (p, g))
      = {(pre', post'). \<exists>k\<in>set (rev [1..<Suc (length (takeWhile P post))]).
           pre' = pre @ take k post \<and> post' = drop k post}"
    unfolding p ms.simps by (rule ms_run_set)
  have "{q. rx_match (PlusG P) p q}
      = {(pre', post'). \<exists>w. list_all P w \<and> 0 < length w \<and> post = w @ post' \<and> pre' = pre @ w}"
    by (auto simp: p)
  also have "\<dots> = {(pre', post'). \<exists>k. k \<le> length (takeWhile P post) \<and> 0 < k
      \<and> pre' = pre @ take k post \<and> post' = drop k post}"
    by (simp only: run_iff[where Q = "\<lambda>k. 0 < k"])
  also have "\<dots> = fst ` set (ms (PlusG P) (p, g))"
    unfolding A K by blast
  finally show ?case by simp
next
  case (PlusL P)
  obtain pre post where p: "p = (pre, post)" by (cases p)
  have K: "set ([1..<Suc (length (takeWhile P post))]) = {k. 0 < k \<and> k \<le> length (takeWhile P post)}"
    by auto
  have A: "fst ` set (ms (PlusL P) (p, g))
      = {(pre', post'). \<exists>k\<in>set ([1..<Suc (length (takeWhile P post))]).
           pre' = pre @ take k post \<and> post' = drop k post}"
    unfolding p ms.simps by (rule ms_run_set)
  have "{q. rx_match (PlusL P) p q}
      = {(pre', post'). \<exists>w. list_all P w \<and> 0 < length w \<and> post = w @ post' \<and> pre' = pre @ w}"
    by (auto simp: p)
  also have "\<dots> = {(pre', post'). \<exists>k. k \<le> length (takeWhile P post) \<and> 0 < k
      \<and> pre' = pre @ take k post \<and> post' = drop k post}"
    by (simp only: run_iff[where Q = "\<lambda>k. 0 < k"])
  also have "\<dots> = fst ` set (ms (PlusL P) (p, g))"
    unfolding A K by blast
  finally show ?case by simp
next
  case (Rep n P)
  obtain pre post where p: "p = (pre, post)" by (cases p)
  have "{q. rx_match (Rep n P) p q}
      = {(pre', post'). \<exists>w. list_all P w \<and> length w = n \<and> post = w @ post' \<and> pre' = pre @ w}"
    by (auto simp: p)
  also have "\<dots> = {(pre', post'). \<exists>k. k \<le> length (takeWhile P post) \<and> k = n
      \<and> pre' = pre @ take k post \<and> post' = drop k post}"
    by (simp only: run_iff[where Q = "\<lambda>k. k = n"])
  also have "\<dots> = fst ` set (ms (Rep n P) (p, g))"
    by (auto simp: p)
  finally show ?case by simp
next
  case (Seq a b)
  have "fst ` set (ms (Seq a b) (p, g)) = (\<Union>s\<in>set (ms a (p, g)). fst ` set (ms b s))"
    by auto
  also have "\<dots> = (\<Union>s\<in>set (ms a (p, g)). {q. rx_match b (fst s) q})"
  proof -
    have "fst ` set (ms b s) = {q. rx_match b (fst s) q}" for s
      using Seq.IH(2)[of "fst s" "snd s"] by simp
    then show ?thesis by simp
  qed
  also have "\<dots> = {q. \<exists>m\<in>fst ` set (ms a (p, g)). rx_match b m q}" by auto
  also have "\<dots> = {q. \<exists>m. rx_match a p m \<and> rx_match b m q}"
    unfolding Seq.IH(1) by auto
  finally show ?case by simp
next
  case (Alt a b)
  have "fst ` set (ms (Alt a b) (p, g)) = fst ` set (ms a (p, g)) \<union> fst ` set (ms b (p, g))"
    by (simp add: image_Un)
  then show ?case unfolding Alt.IH by auto
next
  case (Opt a)
  have "fst ` set (ms (Opt a) (p, g)) = fst ` set (ms a (p, g)) \<union> {p}"
    by (simp add: image_Un)
  then show ?case unfolding Opt.IH by auto
next
  case (Grp n a)
  obtain pre post where p: "p = (pre, post)" by (cases p)
  have "fst ` set (ms (Grp n a) (p, g)) = fst ` set (ms a (p, g))"
    by (force simp: p image_iff split: prod.splits)
  then show ?case unfolding Grp.IH by simp
next
  case Eol
  then show ?case by auto
next
  case WordB
  then show ?case by auto
qed

lemma match_at_None_iff: "match_at r p = None \<longleftrightarrow> (\<forall>q. \<not> rx_match r p q)"
proof -
  have "match_at r p = None \<longleftrightarrow> ms r (p, Map.empty) = []"
    by (simp add: match_at_def split: list.splits)
  also have "\<dots> \<longleftrightarrow> fst ` set (ms r (p, Map.empty)) = {}" by simp
  also have "\<dots> \<longleftrightarrow> (\<forall>q. \<not> rx_match r p q)" unfolding ms_complete by auto
  finally show ?thesis .
qed

lemma search_from_None_iff:
  "search_from r pre post = None \<longleftrightarrow> (\<forall>u v q. post = u @ v \<longrightarrow> \<not> rx_match r (pre @ u, v) q)"
proof (induction post arbitrary: pre)
  case Nil
  then show ?case by (simp add: match_at_None_iff)
next
  case (Cons c cs)
  have "search_from r pre (c # cs) = None
      \<longleftrightarrow> match_at r (pre, c # cs) = None \<and> search_from r (pre @ [c]) cs = None"
    by (simp split: option.splits)
  also have "\<dots> \<longleftrightarrow> (\<forall>q. \<not> rx_match r (pre, c # cs) q)
      \<and> (\<forall>u v q. cs = u @ v \<longrightarrow> \<not> rx_match r ((pre @ [c]) @ u, v) q)"
    by (simp only: match_at_None_iff Cons.IH)
  also have "\<dots> \<longleftrightarrow> (\<forall>u v q. c # cs = u @ v \<longrightarrow> \<not> rx_match r (pre @ u, v) q)"
  proof
    assume a: "(\<forall>q. \<not> rx_match r (pre, c # cs) q)
      \<and> (\<forall>u v q. cs = u @ v \<longrightarrow> \<not> rx_match r ((pre @ [c]) @ u, v) q)"
    show "\<forall>u v q. c # cs = u @ v \<longrightarrow> \<not> rx_match r (pre @ u, v) q"
    proof (intro allI impI)
      fix u v q assume e: "c # cs = u @ v"
      show "\<not> rx_match r (pre @ u, v) q"
      proof (cases u)
        case Nil
        from a have "\<not> rx_match r (pre, c # cs) q" by blast
        with Nil e show ?thesis by simp
      next
        case (Cons d u')
        with e have d: "d = c" and cs: "cs = u' @ v" by simp_all
        from a cs have "\<not> rx_match r ((pre @ [c]) @ u', v) q" by blast
        with Cons d show ?thesis by simp
      qed
    qed
  next
    assume a: "\<forall>u v q. c # cs = u @ v \<longrightarrow> \<not> rx_match r (pre @ u, v) q"
    have "\<forall>q. \<not> rx_match r (pre, c # cs) q" using a[rule_format, of "[]" "c # cs"] by simp
    moreover have "\<forall>u v q. cs = u @ v \<longrightarrow> \<not> rx_match r ((pre @ [c]) @ u, v) q"
    proof (intro allI impI)
      fix u v q assume "cs = u @ v"
      then have "c # cs = (c # u) @ v" by simp
      from a[rule_format, OF this, of q] show "\<not> rx_match r ((pre @ [c]) @ u, v) q" by simp
    qed
    ultimately show "(\<forall>q. \<not> rx_match r (pre, c # cs) q)
      \<and> (\<forall>u v q. cs = u @ v \<longrightarrow> \<not> rx_match r ((pre @ [c]) @ u, v) q)" by blast
  qed
  finally show ?case .
qed

lemma re_search_None_iff: "re_search r s = None \<longleftrightarrow> \<not> occurs r s"
  unfolding re_search_def occurs_def
  using search_from_None_iff[of r "[]" s] by auto

section \<open>The header patterns\<close>

subsection \<open>The date label\<close>

lemma rx_match_date:
  "rx_match date_rx (a, b) q \<longleftrightarrow> (\<exists>d. date_shape d \<and> b = d @ snd q \<and> fst q = a @ d)"
proof
  assume "rx_match date_rx (a, b) q"
  then obtain w1 w2 w3 where
    w: "length w1 = 2" "list_all is_ascii_digit w1" "length w2 = 2" "list_all is_ascii_digit w2"
       "length w3 = 4" "list_all is_ascii_digit w3"
    and b: "b = w1 @ ''.'' @ w2 @ ''.'' @ w3 @ snd q"
    and a: "fst q = a @ w1 @ ''.'' @ w2 @ ''.'' @ w3"
    by (auto simp: date_rx_def)
  have "date_shape (w1 @ ''.'' @ w2 @ ''.'' @ w3)"
    unfolding date_shape_def using w by blast
  with a b show "\<exists>d. date_shape d \<and> b = d @ snd q \<and> fst q = a @ d"
    by (intro exI[of _ "w1 @ ''.'' @ w2 @ ''.'' @ w3"]) simp
next
  assume "\<exists>d. date_shape d \<and> b = d @ snd q \<and> fst q = a @ d"
  then obtain w1 w2 w3 where
    w: "length w1 = 2" "list_all is_ascii_digit w1" "length w2 = 2" "list_all is_ascii_digit w2"
       "length w3 = 4" "list_all is_ascii_digit w3"
    and b: "b = (w1 @ ''.'' @ w2 @ ''.'' @ w3) @ snd q"
    and a: "fst q = a @ (w1 @ ''.'' @ w2 @ ''.'' @ w3)"
    by (auto simp: date_shape_def)
  have 1: "rx_match (Rep 2 is_ascii_digit) (a, b) (a @ w1, ''.'' @ w2 @ ''.'' @ w3 @ snd q)"
    using w b by auto
  have 2: "rx_match (Lit ''.'') (a @ w1, ''.'' @ w2 @ ''.'' @ w3 @ snd q)
             (a @ w1 @ ''.'', w2 @ ''.'' @ w3 @ snd q)"
    by simp
  have 3: "rx_match (Rep 2 is_ascii_digit) (a @ w1 @ ''.'', w2 @ ''.'' @ w3 @ snd q)
             (a @ w1 @ ''.'' @ w2, ''.'' @ w3 @ snd q)"
    using w by auto
  have 4: "rx_match (Lit ''.'') (a @ w1 @ ''.'' @ w2, ''.'' @ w3 @ snd q)
             (a @ w1 @ ''.'' @ w2 @ ''.'', w3 @ snd q)"
    by simp
  have 5: "rx_match (Rep 4 is_ascii_digit) (a @ w1 @ ''.'' @ w2 @ ''.'', w3 @ snd q) q"
    using w a by auto
  from 1 2 3 4 5 show "rx_match date_rx (a, b) q"
    unfolding date_rx_def rx_match.simps by blast
qed

lemma rx_match_DATUM:
  "rx_match DATUM_RE (u, v) q \<longleftrightarrow>
     (\<exists>sp d. list_all py_isspace sp \<and> date_shape d \<and> v = ''Datum:'' @ sp @ d @ snd q
             \<and> fst q = u @ ''Datum:'' @ sp @ d)"
proof
  assume "rx_match DATUM_RE (u, v) q"
  then obtain m1 m2 where 1: "rx_match (Lit ''Datum:'') (u, v) m1"
    and 2: "rx_match (StarG py_isspace) m1 m2" and 3: "rx_match date_rx m2 q"
    unfolding DATUM_RE_def rx_match.simps by blast
  from 1 have m1: "v = ''Datum:'' @ snd m1" "fst m1 = u @ ''Datum:''" by simp_all
  from 2 obtain sp where sp: "list_all py_isspace sp" "snd m1 = sp @ snd m2" "fst m2 = fst m1 @ sp"
    by auto
  from 3 obtain d where d: "date_shape d" "snd m2 = d @ snd q" "fst q = fst m2 @ d"
    using rx_match_date[of "fst m2" "snd m2" q] by auto
  from m1 sp d show "\<exists>sp d. list_all py_isspace sp \<and> date_shape d \<and> v = ''Datum:'' @ sp @ d @ snd q
             \<and> fst q = u @ ''Datum:'' @ sp @ d"
    by (intro exI[of _ sp] exI[of _ d]) simp
next
  assume "\<exists>sp d. list_all py_isspace sp \<and> date_shape d \<and> v = ''Datum:'' @ sp @ d @ snd q
             \<and> fst q = u @ ''Datum:'' @ sp @ d"
  then obtain sp d where sp: "list_all py_isspace sp" and d: "date_shape d"
    and v: "v = ''Datum:'' @ sp @ d @ snd q" and q: "fst q = u @ ''Datum:'' @ sp @ d" by blast
  have 1: "rx_match (Lit ''Datum:'') (u, v) (u @ ''Datum:'', sp @ d @ snd q)" using v by simp
  have 2: "rx_match (StarG py_isspace) (u @ ''Datum:'', sp @ d @ snd q)
             ((u @ ''Datum:'') @ sp, d @ snd q)"
    using sp by auto
  have 3: "rx_match date_rx ((u @ ''Datum:'') @ sp, d @ snd q) q"
    using rx_match_date[of "(u @ ''Datum:'') @ sp" "d @ snd q" q] d q by auto
  from 1 2 3 show "rx_match DATUM_RE (u, v) q"
    unfolding DATUM_RE_def rx_match.simps by blast
qed

lemma occurs_DATUM_iff: "occurs DATUM_RE s \<longleftrightarrow> datum_label_in s"
proof
  assume "occurs DATUM_RE s"
  then obtain u v q where s: "s = u @ v" and m: "rx_match DATUM_RE (u, v) q"
    unfolding occurs_def by blast
  from m obtain sp d where "list_all py_isspace sp" "date_shape d" "v = ''Datum:'' @ sp @ d @ snd q"
    unfolding rx_match_DATUM by blast
  with s show "datum_label_in s" unfolding datum_label_in_def by blast
next
  assume "datum_label_in s"
  then obtain u sp d v where s: "s = u @ ''Datum:'' @ sp @ d @ v"
    and sp: "list_all py_isspace sp" and d: "date_shape d"
    unfolding datum_label_in_def by blast
  have "rx_match DATUM_RE (u, ''Datum:'' @ sp @ d @ v) (u @ ''Datum:'' @ sp @ d, v)"
    unfolding rx_match_DATUM using sp d by auto
  with s show "occurs DATUM_RE s" unfolding occurs_def by blast
qed

subsection \<open>The title label\<close>

lemma catI: "L1 w1 \<Longrightarrow> L2 w2 \<Longrightarrow> cat L1 L2 (w1 @ w2)"
  unfolding cat_def by blast

lemma catI2: "L1 w1 \<Longrightarrow> L2 w2 \<Longrightarrow> w = w1 @ w2 \<Longrightarrow> cat L1 L2 w"
  unfolding cat_def by blast

lemma catE: "cat L1 L2 w \<Longrightarrow> (\<And>w1 w2. w = w1 @ w2 \<Longrightarrow> L1 w1 \<Longrightarrow> L2 w2 \<Longrightarrow> R) \<Longrightarrow> R"
  unfolding cat_def by blast

lemma consumes_seq:
  "(\<exists>m. consumes L1 p m \<and> consumes L2 m q) \<longleftrightarrow> consumes (cat L1 L2) p q"
proof
  assume "\<exists>m. consumes L1 p m \<and> consumes L2 m q"
  then obtain m w1 w2 where "L1 w1" "snd p = w1 @ snd m" "fst m = fst p @ w1"
    "L2 w2" "snd m = w2 @ snd q" "fst q = fst m @ w2"
    unfolding consumes_def by blast
  then have "cat L1 L2 (w1 @ w2) \<and> snd p = (w1 @ w2) @ snd q \<and> fst q = fst p @ (w1 @ w2)"
    by (simp add: catI)
  then show "consumes (cat L1 L2) p q" unfolding consumes_def by blast
next
  assume "consumes (cat L1 L2) p q"
  then obtain w1 w2 where w: "L1 w1" "L2 w2" "snd p = (w1 @ w2) @ snd q" "fst q = fst p @ (w1 @ w2)"
    unfolding consumes_def cat_def by blast
  let ?m = "(fst p @ w1, w2 @ snd q)"
  have "consumes L1 p ?m \<and> consumes L2 ?m q"
    using w unfolding consumes_def by auto
  then show "\<exists>m. consumes L1 p m \<and> consumes L2 m q" by (rule exI)
qed

lemma consumes_cong: "(\<And>w. L w = L' w) \<Longrightarrow> consumes L p q = consumes L' p q"
  by (simp add: consumes_def)

lemma rx_lit: "rx_match (Lit l) p q = consumes (\<lambda>w. w = l) p q"
  by (auto simp: consumes_def)

lemma rx_star: "rx_match (StarG P) p q = consumes (list_all P) p q"
  by (auto simp: consumes_def)

lemma rx_plusG: "rx_match (PlusG P) p q = consumes (\<lambda>w. w \<noteq> [] \<and> list_all P w) p q"
  by (auto simp: consumes_def)

lemma rx_plusL: "rx_match (PlusL P) p q = consumes (\<lambda>w. w \<noteq> [] \<and> list_all P w) p q"
  by (auto simp: consumes_def)

lemma rx_date: "rx_match date_rx p q = consumes date_shape p q"
  using rx_match_date[of "fst p" "snd p" q] by (auto simp: consumes_def)

lemma rx_seq:
  assumes "\<And>p q. rx_match a p q = consumes L1 p q" "\<And>p q. rx_match b p q = consumes L2 p q"
  shows "rx_match (Seq a b) p q = consumes (cat L1 L2) p q"
  unfolding rx_match.simps assms by (rule consumes_seq)

lemma rx_opt:
  assumes "\<And>p q. rx_match a p q = consumes L p q"
  shows "rx_match (Opt a) p q = consumes (\<lambda>w. w = [] \<or> L w) p q"
proof -
  have "q = p \<longleftrightarrow> consumes (\<lambda>w. w = []) p q"
    by (auto simp: consumes_def prod_eq_iff)
  then show ?thesis unfolding rx_match.simps assms by (auto simp: consumes_def)
qed

lemma rx_grp:
  assumes "\<And>p q. rx_match a p q = consumes L p q"
  shows "rx_match (Grp n a) p q = consumes L p q"
  by (simp add: assms)

lemma tail_cat:
  "(w = [] \<or> cat A (cat D (cat (\<lambda>w. w = l) (\<lambda>w. w = [] \<or> D w))) w)
     \<longleftrightarrow> (w = [] \<or> (\<exists>sp d1 d2. w = sp @ d1 @ l @ d2 \<and> A sp \<and> D d1 \<and> (d2 = [] \<or> D d2)))"
proof -
  have "cat A (cat D (cat (\<lambda>w. w = l) (\<lambda>w. w = [] \<or> D w))) w
      \<longleftrightarrow> (\<exists>sp d1 d2. w = sp @ d1 @ l @ d2 \<and> A sp \<and> D d1 \<and> (d2 = [] \<or> D d2))"
  proof
    assume "cat A (cat D (cat (\<lambda>w. w = l) (\<lambda>w. w = [] \<or> D w))) w"
    then obtain sp r1 where 1: "w = sp @ r1" "A sp" "cat D (cat (\<lambda>w. w = l) (\<lambda>w. w = [] \<or> D w)) r1"
      by (rule catE)
    from 1(3) obtain d1 r2 where 2: "r1 = d1 @ r2" "D d1" "cat (\<lambda>w. w = l) (\<lambda>w. w = [] \<or> D w) r2"
      by (rule catE)
    from 2(3) obtain x d2 where 3: "r2 = x @ d2" "x = l" "d2 = [] \<or> D d2"
      by (rule catE)
    from 1 2 3 show "\<exists>sp d1 d2. w = sp @ d1 @ l @ d2 \<and> A sp \<and> D d1 \<and> (d2 = [] \<or> D d2)"
      by blast
  next
    assume "\<exists>sp d1 d2. w = sp @ d1 @ l @ d2 \<and> A sp \<and> D d1 \<and> (d2 = [] \<or> D d2)"
    then obtain sp d1 d2 where w: "w = sp @ d1 @ l @ d2" "A sp" "D d1" "d2 = [] \<or> D d2" by blast
    have a: "cat (\<lambda>w. w = l) (\<lambda>w. w = [] \<or> D w) (l @ d2)" by (rule catI2[where ?w1.0 = l and ?w2.0 = d2]) (use w(4) in simp_all)
    have b: "cat D (cat (\<lambda>w. w = l) (\<lambda>w. w = [] \<or> D w)) (d1 @ l @ d2)"
      by (rule catI2[where ?w1.0 = d1 and ?w2.0 = "l @ d2"]) (use w(3) a in simp_all)
    have "cat A (cat D (cat (\<lambda>w. w = l) (\<lambda>w. w = [] \<or> D w))) (sp @ d1 @ l @ d2)"
      by (rule catI2[where ?w1.0 = sp and ?w2.0 = "d1 @ l @ d2"]) (use w(2) b in simp_all)
    then show "cat A (cat D (cat (\<lambda>w. w = l) (\<lambda>w. w = [] \<or> D w))) w" by (simp only: w(1))
  qed
  then show ?thesis by simp
qed

lemma rx_tail:
  "rx_match (Opt (Seq (PlusG py_isspace) (Seq (Grp 3 date_rx) (Seq (Lit ''-'') (Opt (Grp 4 date_rx))))))
      p q = consumes range_tail p q"
proof -
  have "rx_match (Opt (Seq (PlusG py_isspace) (Seq (Grp 3 date_rx) (Seq (Lit ''-'') (Opt (Grp 4 date_rx))))))
      p q = consumes (\<lambda>w. w = [] \<or> cat (\<lambda>w. w \<noteq> [] \<and> list_all py_isspace w)
               (cat date_shape (cat (\<lambda>w. w = ''-'') (\<lambda>w. w = [] \<or> date_shape w))) w) p q"
    by (intro rx_opt rx_seq rx_grp rx_plusG rx_date rx_lit)
  also have "\<dots> = consumes range_tail p q"
  proof (rule consumes_cong)
    fix w
    show "(w = [] \<or> cat (\<lambda>w. w \<noteq> [] \<and> list_all py_isspace w)
               (cat date_shape (cat (\<lambda>w. w = ''-'') (\<lambda>w. w = [] \<or> date_shape w))) w) = range_tail w"
      unfolding tail_cat range_tail_def by blast
  qed
  finally show ?thesis .
qed

lemma body_cat:
  "cat (\<lambda>w. w = l1) (cat A (cat (cat (\<lambda>w. w = l2) B) (cat C (cat D (cat E F))))) w
     \<longleftrightarrow> (\<exists>a b c d e f. w = l1 @ a @ l2 @ b @ c @ d @ e @ f \<and> A a \<and> B b \<and> C c \<and> D d \<and> E e \<and> F f)"
proof
  assume "cat (\<lambda>w. w = l1) (cat A (cat (cat (\<lambda>w. w = l2) B) (cat C (cat D (cat E F))))) w"
  then obtain x r1 where 1: "w = x @ r1" "x = l1"
    "cat A (cat (cat (\<lambda>w. w = l2) B) (cat C (cat D (cat E F)))) r1" by (rule catE)
  from 1(3) obtain a r2 where 2: "r1 = a @ r2" "A a"
    "cat (cat (\<lambda>w. w = l2) B) (cat C (cat D (cat E F))) r2" by (rule catE)
  from 2(3) obtain lb r3 where 3: "r2 = lb @ r3" "cat (\<lambda>w. w = l2) B lb"
    "cat C (cat D (cat E F)) r3" by (rule catE)
  from 3(2) obtain y b where 4: "lb = y @ b" "y = l2" "B b" by (rule catE)
  from 3(3) obtain c r4 where 5: "r3 = c @ r4" "C c" "cat D (cat E F) r4" by (rule catE)
  from 5(3) obtain d r5 where 6: "r4 = d @ r5" "D d" "cat E F r5" by (rule catE)
  from 6(3) obtain e f where 7: "r5 = e @ f" "E e" "F f" by (rule catE)
  have "w = l1 @ a @ l2 @ b @ c @ d @ e @ f" using 1 2 3 4 5 6 7 by simp
  with 2 4 5 6 7
  show "\<exists>a b c d e f. w = l1 @ a @ l2 @ b @ c @ d @ e @ f \<and> A a \<and> B b \<and> C c \<and> D d \<and> E e \<and> F f"
    by blast
next
  assume "\<exists>a b c d e f. w = l1 @ a @ l2 @ b @ c @ d @ e @ f \<and> A a \<and> B b \<and> C c \<and> D d \<and> E e \<and> F f"
  then obtain a b c d e f where w: "w = l1 @ a @ l2 @ b @ c @ d @ e @ f"
    and h: "A a" "B b" "C c" "D d" "E e" "F f" by blast
  have 1: "cat E F (e @ f)" by (rule catI2[where ?w1.0 = e and ?w2.0 = f]) (use h(5) h(6) in simp_all)
  have 2: "cat D (cat E F) (d @ e @ f)" by (rule catI2[where ?w1.0 = d and ?w2.0 = "e @ f"]) (use h(4) 1 in simp_all)
  have 3: "cat C (cat D (cat E F)) (c @ d @ e @ f)" by (rule catI2[where ?w1.0 = c and ?w2.0 = "d @ e @ f"]) (use h(3) 2 in simp_all)
  have 4: "cat (\<lambda>w. w = l2) B (l2 @ b)" by (rule catI2[where ?w1.0 = l2 and ?w2.0 = b]) (use h(2) in simp_all)
  have 5: "cat (cat (\<lambda>w. w = l2) B) (cat C (cat D (cat E F))) ((l2 @ b) @ (c @ d @ e @ f))"
    by (rule catI2[where ?w1.0 = "l2 @ b" and ?w2.0 = "c @ d @ e @ f"]) (use 4 3 in simp_all)
  have 6: "cat A (cat (cat (\<lambda>w. w = l2) B) (cat C (cat D (cat E F))))
      (a @ ((l2 @ b) @ (c @ d @ e @ f)))" by (rule catI2[where ?w1.0 = a and ?w2.0 = "(l2 @ b) @ (c @ d @ e @ f)"]) (use h(1) 5 in simp_all)
  have "cat (\<lambda>w. w = l1) (cat A (cat (cat (\<lambda>w. w = l2) B) (cat C (cat D (cat E F)))))
      (l1 @ (a @ ((l2 @ b) @ (c @ d @ e @ f))))" by (rule catI2[where ?w1.0 = l1 and ?w2.0 = "a @ ((l2 @ b) @ (c @ d @ e @ f))"]) (use 6 in simp_all)
  then show "cat (\<lambda>w. w = l1) (cat A (cat (cat (\<lambda>w. w = l2) B) (cat C (cat D (cat E F))))) w"
    by (simp only: w append_assoc)
qed

lemma rx_body: "rx_match TITEL_BODY p q = consumes body_lang p q"
proof -
  have "rx_match TITEL_BODY p q
      = consumes (cat (\<lambda>w. w = ''Titel:'') (cat (list_all py_isspace)
          (cat (cat (\<lambda>w. w = ''LF'') (list_all (\<lambda>c. c = CHR ''-'' \<or> py_isword c)))
          (cat (\<lambda>w. w \<noteq> [] \<and> list_all py_isspace w)
          (cat (\<lambda>w. w \<noteq> [] \<and> list_all py_isdot w)
          (cat range_tail (list_all py_isspace))))))) p q"
    unfolding TITEL_BODY_def
    by (intro rx_seq rx_grp rx_lit rx_star rx_plusG rx_plusL rx_tail)
  also have "\<dots> = consumes body_lang p q"
    by (rule consumes_cong) (simp only: body_cat body_lang_def is_code_char_def[abs_def])
  finally show ?thesis .
qed

lemma rx_TITEL:
  "rx_match TITEL_RE p q \<longleftrightarrow> (\<exists>m. rx_match TITEL_BODY p m \<and> rx_match Eol m q)"
proof
  assume "rx_match TITEL_RE p q"
  then obtain m1 m2 m3 m4 m5 m6 m7 where
    "rx_match (Lit ''Titel:'') p m1" "rx_match (StarG py_isspace) m1 m2"
    "rx_match (Grp 1 (Seq (Lit ''LF'') (StarG (\<lambda>c. c = CHR ''-'' \<or> py_isword c)))) m2 m3"
    "rx_match (PlusG py_isspace) m3 m4" "rx_match (Grp 2 (PlusL py_isdot)) m4 m5"
    "rx_match (Opt (Seq (PlusG py_isspace) (Seq (Grp 3 date_rx) (Seq (Lit ''-'')
       (Opt (Grp 4 date_rx)))))) m5 m6"
    "rx_match (StarG py_isspace) m6 m7" "rx_match Eol m7 q"
    unfolding TITEL_RE_def rx_match.simps(7) by blast
  then have "rx_match TITEL_BODY p m7 \<and> rx_match Eol m7 q"
    unfolding TITEL_BODY_def rx_match.simps(7) by blast
  then show "\<exists>m. rx_match TITEL_BODY p m \<and> rx_match Eol m q" by (rule exI)
next
  assume "\<exists>m. rx_match TITEL_BODY p m \<and> rx_match Eol m q"
  then obtain m7 where b: "rx_match TITEL_BODY p m7" and e: "rx_match Eol m7 q" by blast
  from b obtain m1 m2 m3 m4 m5 m6 where
    "rx_match (Lit ''Titel:'') p m1" "rx_match (StarG py_isspace) m1 m2"
    "rx_match (Grp 1 (Seq (Lit ''LF'') (StarG (\<lambda>c. c = CHR ''-'' \<or> py_isword c)))) m2 m3"
    "rx_match (PlusG py_isspace) m3 m4" "rx_match (Grp 2 (PlusL py_isdot)) m4 m5"
    "rx_match (Opt (Seq (PlusG py_isspace) (Seq (Grp 3 date_rx) (Seq (Lit ''-'')
       (Opt (Grp 4 date_rx)))))) m5 m6"
    "rx_match (StarG py_isspace) m6 m7"
    unfolding TITEL_BODY_def rx_match.simps(7) by blast
  with e show "rx_match TITEL_RE p q"
    unfolding TITEL_RE_def rx_match.simps(7) by blast
qed

lemma occurs_TITEL_iff: "occurs TITEL_RE s \<longleftrightarrow> titel_label_in s"
proof
  assume "occurs TITEL_RE s"
  then obtain u v q m where s: "s = u @ v" and b: "rx_match TITEL_BODY (u, v) m"
    and e: "rx_match Eol m q"
    unfolding occurs_def rx_TITEL by blast
  from b obtain w where w: "body_lang w" "v = w @ snd m"
    unfolding rx_body consumes_def by auto
  from e have e': "snd m = [] \<or> hd (snd m) = CHR 0x0A" by simp
  from w(1) obtain sp1 code sp2 title tail sp3 where
    b: "w = ''Titel:'' @ sp1 @ ''LF'' @ code @ sp2 @ title @ tail @ sp3"
    and h: "list_all py_isspace sp1" "list_all is_code_char code"
       "sp2 \<noteq> [] \<and> list_all py_isspace sp2" "title \<noteq> [] \<and> list_all py_isdot title"
       "range_tail tail" "list_all py_isspace sp3"
    unfolding body_lang_def by blast
  have "s = u @ ''Titel:'' @ sp1 @ ''LF'' @ code @ sp2 @ title @ tail @ sp3 @ snd m"
    unfolding s w(2) b by simp
  with h e' show "titel_label_in s" unfolding titel_label_in_def by blast
next
  assume "titel_label_in s"
  then obtain u sp1 code sp2 title tail sp3 v where
    s: "s = u @ ''Titel:'' @ sp1 @ ''LF'' @ code @ sp2 @ title @ tail @ sp3 @ v"
    and h: "list_all py_isspace sp1" "list_all is_code_char code"
       "sp2 \<noteq> [] \<and> list_all py_isspace sp2" "title \<noteq> [] \<and> list_all py_isdot title"
       "range_tail tail" "list_all py_isspace sp3"
    and v: "v = [] \<or> hd v = CHR 0x0A"
    unfolding titel_label_in_def by blast
  let ?w = "''Titel:'' @ sp1 @ ''LF'' @ code @ sp2 @ title @ tail @ sp3"
  have w: "body_lang ?w" unfolding body_lang_def using h by blast
  have s': "s = u @ ?w @ v" unfolding s by simp
  have "consumes body_lang (u, ?w @ v) (u @ ?w, v)" unfolding consumes_def using w by auto
  then have "rx_match TITEL_BODY (u, ?w @ v) (u @ ?w, v)" unfolding rx_body .
  moreover have "rx_match Eol (u @ ?w, v) (u @ ?w, v)" using v by simp
  ultimately have "rx_match TITEL_RE (u, ?w @ v) (u @ ?w, v)" unfolding rx_TITEL by blast
  with s' show "occurs TITEL_RE s" unfolding occurs_def by blast
qed

subsection \<open>The two failures of the header parser\<close>

lemma parse_date_error: "parse_date s = Inl e \<Longrightarrow> e = StrptimeError"
  by (auto simp: parse_date_def strptime_dmY_def Let_def split: sum.splits option.splits if_splits)

lemma parse_date_opt_error: "parse_date_opt s = Inl e \<Longrightarrow> e = StrptimeError"
  by (auto simp: parse_date_opt_def dest: parse_date_error split: option.splits if_splits sum.splits)

lemma parse_header_no_datum:
  "re_search DATUM_RE txt = None \<Longrightarrow> parse_header txt = Inl DatumNotFound"
  by (simp add: parse_header_def Let_def)

lemma parse_header_no_titel:
  "re_search DATUM_RE txt \<noteq> None \<Longrightarrow> re_search TITEL_RE txt = None \<Longrightarrow>
     parse_header txt = Inl TitelNotFound"
  by (auto simp: parse_header_def Let_def)

lemma parse_header_both:
  assumes "re_search DATUM_RE txt \<noteq> None" "re_search TITEL_RE txt \<noteq> None"
  shows "parse_header txt \<noteq> Inl DatumNotFound \<and> parse_header txt \<noteq> Inl TitelNotFound"
proof -
  from assms obtain dg tg where dg: "re_search DATUM_RE txt = Some dg"
    and tg: "re_search TITEL_RE txt = Some tg" by auto
  have "e = StrptimeError \<or> e = UnpackError" if "parse_header txt = Inl e" for e
    using that dg tg
    by (auto simp: parse_header_def Let_def split: option.splits sum.splits
        dest: parse_date_error parse_date_opt_error)
  then show ?thesis by auto
qed

lemma parse_header_DatumNotFound_iff:
  "parse_header txt = Inl DatumNotFound \<longleftrightarrow> \<not> occurs DATUM_RE txt"
proof (cases "re_search DATUM_RE txt = None")
  case True
  then show ?thesis using parse_header_no_datum re_search_None_iff by simp
next
  case False
  then have o: "occurs DATUM_RE txt" using re_search_None_iff by simp
  show ?thesis
  proof (cases "re_search TITEL_RE txt = None")
    case True
    with False have "parse_header txt = Inl TitelNotFound" by (rule parse_header_no_titel)
    with o show ?thesis by simp
  next
    case t: False
    from parse_header_both[OF False t] o show ?thesis by simp
  qed
qed

lemma parse_header_TitelNotFound_iff:
  "parse_header txt = Inl TitelNotFound \<longleftrightarrow> occurs DATUM_RE txt \<and> \<not> occurs TITEL_RE txt"
proof (cases "re_search DATUM_RE txt = None")
  case True
  then have "parse_header txt = Inl DatumNotFound" by (rule parse_header_no_datum)
  moreover from True have "\<not> occurs DATUM_RE txt" using re_search_None_iff by simp
  ultimately show ?thesis by simp
next
  case False
  then have o: "occurs DATUM_RE txt" using re_search_None_iff by simp
  show ?thesis
  proof (cases "re_search TITEL_RE txt = None")
    case True
    with False have "parse_header txt = Inl TitelNotFound" by (rule parse_header_no_titel)
    moreover from True have "\<not> occurs TITEL_RE txt" using re_search_None_iff by simp
    ultimately show ?thesis using o by simp
  next
    case t: False
    then have "occurs TITEL_RE txt" using re_search_None_iff by simp
    with parse_header_both[OF False t] show ?thesis by simp
  qed
qed

section \<open>Properties of header parsing\<close>

subsection \<open>Missing date or title\<close>

text \<open>
  Claim C8, amended. The date is tested first. For every header text in which
  the date pattern is absent the parser fails with the date failure, also when
  the title pattern is absent too; for every text in which the date pattern is
  present and the title pattern absent it fails with the title failure. The two
  failures occur in no other case, and when either pattern is absent no header
  is returned.\<close>

theorem header_missing_parts:
  "(\<not> datum_label_in txt \<longrightarrow> parse_header txt = Inl DatumNotFound)
   \<and> (datum_label_in txt \<and> \<not> titel_label_in txt \<longrightarrow> parse_header txt = Inl TitelNotFound)
   \<and> (parse_header txt = Inl DatumNotFound \<longrightarrow> \<not> datum_label_in txt)
   \<and> (parse_header txt = Inl TitelNotFound \<longrightarrow> datum_label_in txt \<and> \<not> titel_label_in txt)
   \<and> (\<not> datum_label_in txt \<or> \<not> titel_label_in txt \<longrightarrow> (\<forall>h. parse_header txt \<noteq> Inr h))"
proof -
  have "\<forall>h. parse_header txt \<noteq> Inr h" if "\<not> datum_label_in txt \<or> \<not> titel_label_in txt"
  proof (cases "datum_label_in txt")
    case False
    then have "parse_header txt = Inl DatumNotFound"
      by (simp add: parse_header_DatumNotFound_iff occurs_DATUM_iff)
    then show ?thesis by simp
  next
    case True
    with that have "parse_header txt = Inl TitelNotFound"
      by (simp add: parse_header_TitelNotFound_iff occurs_DATUM_iff occurs_TITEL_iff)
    then show ?thesis by simp
  qed
  then show ?thesis
    using parse_header_DatumNotFound_iff[of "txt"] parse_header_TitelNotFound_iff[of "txt"]
    by (simp add: occurs_DATUM_iff occurs_TITEL_iff)
qed

theorem header_missing_parts_witness:
  "parse_header ''Titel: LF12 Grundlagen'' = Inl DatumNotFound
   \<and> parse_header ''Datum: 05.03.2024'' = Inl TitelNotFound"
proof -
  have 1: "\<not> datum_label_in ''Titel: LF12 Grundlagen''"
  proof -
    have "re_search DATUM_RE ''Titel: LF12 Grundlagen'' = None" by code_simp
    then show ?thesis by (simp add: re_search_None_iff occurs_DATUM_iff)
  qed
  have 2: "datum_label_in ''Datum: 05.03.2024''"
  proof -
    have "re_search DATUM_RE ''Datum: 05.03.2024'' \<noteq> None" by code_simp
    then show ?thesis by (simp add: re_search_None_iff occurs_DATUM_iff)
  qed
  have 3: "\<not> titel_label_in ''Datum: 05.03.2024''"
  proof -
    have "re_search TITEL_RE ''Datum: 05.03.2024'' = None" by code_simp
    then show ?thesis by (simp add: re_search_None_iff occurs_TITEL_iff)
  qed
  from header_missing_parts[of "''Titel: LF12 Grundlagen''"] 1
       header_missing_parts[of "''Datum: 05.03.2024''"] 2 3
  show ?thesis by blast
qed

theorem header_title_missing_counterexample:
  "\<not> titel_label_in ''Hallo'' \<and> parse_header ''Hallo'' = Inl DatumNotFound
   \<and> parse_header ''Hallo'' \<noteq> Inl TitelNotFound"
proof -
  have "re_search TITEL_RE ''Hallo'' = None" by code_simp
  then have "\<not> titel_label_in ''Hallo''" by (simp add: re_search_None_iff occurs_TITEL_iff)
  moreover have "parse_header ''Hallo'' = Inl DatumNotFound" by code_simp
  ultimately show ?thesis by simp
qed

subsection \<open>The example header\<close>

text \<open>
  Claim C7. For the header text "Datum: 05.03.2024 ... Titel: LF12 Grundlagen
  01.03.2024-05.04.2024" the parser succeeds and returns the date "2024-03-05",
  the unit identifier "LF12", the title "Grundlagen" without surrounding
  whitespace, the start date "2024-03-01" and the end date "2024-04-05": every
  dd.mm.yyyy date is converted to the form yyyy-mm-dd, as the date "05.03.2024"
  is by the date conversion itself.\<close>

theorem header_example_parsed:
  "parse_header header_example =
     Inr \<lparr>datum = ''2024-03-05'', lernfeld_id = Some ''LF12'', titel = ''Grundlagen'',
          start_datum = Some ''2024-03-01'', end_datum = Some ''2024-04-05''\<rparr>
   \<and> parse_date ''05.03.2024'' = Inr ''2024-03-05''"
  by (rule conjI; code_simp)

subsection \<open>A date that is not in the calendar\<close>

text \<open>
  Claim C10. There is a header text, "Datum: 31.02.2024 Titel: LF12 Grundlagen",
  in which "Datum:" is followed by a text that the date pattern accepts,
  "31.02.2024", and that is no date of the calendar: the date conversion fails
  on it, and the header parser fails with that conversion error, which is
  neither the date failure, nor the title failure, nor the failure of the row
  extraction.\<close>

theorem invalid_calendar_date_error:
  "map_option (\<lambda>g. g 1) (re_search DATUM_RE header_bad_date) = Some (Some ''31.02.2024'')
   \<and> parse_date ''31.02.2024'' = Inl StrptimeError
   \<and> parse_header header_bad_date = Inl StrptimeError
   \<and> StrptimeError \<notin> {DatumNotFound, TitelNotFound, NoStundeNumbers}"
proof -
  have "map_option (\<lambda>g. g 1) (re_search DATUM_RE header_bad_date) = Some (Some ''31.02.2024'')"
    by code_simp
  moreover have "parse_date ''31.02.2024'' = Inl StrptimeError" by code_simp
  moreover have "parse_header header_bad_date = Inl StrptimeError" by code_simp
  ultimately show ?thesis by simp
qed

end
